theory Spec2Isabelle
  imports Complex_Main "HOL-Library.AList"
begin

section \<open>The data model of prompt\_lmfst.py\<close>

text \<open>
  Labels are the words of the prompt as written; weights are the numbers of the
  weight table. The code never computes with a weight (it stores it and prints it),
  so a real number stands for Python's int or float exactly.
\<close>

type_synonym label = string
type_synonym weight = real

text \<open>
  class Word: the label and the two state numbers. The attributes next\_start and
  prev\_final are set once in the constructor to final and start, and no Word is
  mutated afterwards, so they are functions of the record.
\<close>

record Word =
  label :: label
  start :: nat
  final :: nat

definition next_start :: "Word \<Rightarrow> nat" where
  "next_start w = final w"

definition prev_final :: "Word \<Rightarrow> nat" where
  "prev_final w = start w"

text \<open>
  The two namedtuples that share a state's list: Arc(from\_state, to\_state, in\_label,
  out\_label, weight) and FinalState(state, weight).
\<close>

datatype item =
    Arc nat nat label label weight
  | FinalState nat weight

text \<open>getattr(item, "in\_label", None): None for a FinalState.\<close>

fun getattr_in_label :: "item \<Rightarrow> label option" where
  "getattr_in_label (Arc from_state to_state in_label out_label w) = Some in_label"
| "getattr_in_label (FinalState state w) = None"

text \<open>The exceptions the code can raise.\<close>

datatype error =
    KeyError nat
  | IndexError
  | RuntimeError
  | AttributeError

text \<open>
  The homophone index is a defaultdict(set): every key has a value, the empty set
  when it was never stored. The guard also looks up None (the in\_label of a
  FinalState), so the keys are optional labels. A lookup of a missing key stores an
  empty set under it, which no later lookup can tell from the key being absent, so
  the index is a total function.
\<close>

type_synonym homophone_index = "label option \<Rightarrow> label set"

text \<open>
  readHomophones, on the lines of the file already split into words (None when no
  file path is given): for every word of every line, the set of the line's words is
  united into the word's entry.
\<close>

definition readHomophones_line :: "label list \<Rightarrow> homophone_index \<Rightarrow> homophone_index" where
  "readHomophones_line line homophones =
     fold (\<lambda>word h. h(Some word := set line \<union> h (Some word))) line homophones"

definition readHomophones :: "label list list option \<Rightarrow> homophone_index" where
  "readHomophones file =
     (case file of
        None \<Rightarrow> (\<lambda>k. {})
      | Some lines_split \<Rightarrow> fold readHomophones_line lines_split (\<lambda>k. {}))"

text \<open>
  class PromptLMFST. The dict states keeps its keys in insertion order, which inText
  and isDeterministic iterate, so it is an association list: storing under a key
  that exists replaces the value in place, a new key goes to the end
  (\<^const>\<open>AList.update\<close>). The attribute labels\_by\_state is never read or written
  after the constructor and is left out.
\<close>

record PromptLMFST =
  ID :: "string option"
  words :: "Word list"
  states :: "(nat \<times> item list) list"
  state_counter :: nat
  initialised :: bool
  homophones :: homophone_index

definition PromptLMFST_init :: "homophone_index \<Rightarrow> string option \<Rightarrow> PromptLMFST" where
  "PromptLMFST_init h i =
     \<lparr>ID = i, words = [], states = [], state_counter = 0, initialised = False,
      homophones = h\<rparr>"

text \<open>self.states[k]: the list stored under k, if any.\<close>

definition state_items :: "PromptLMFST \<Rightarrow> nat \<Rightarrow> item list option" where
  "state_items g k = map_of (states g) k"

definition state_keys :: "PromptLMFST \<Rightarrow> nat list" where
  "state_keys g = map fst (states g)"

section \<open>The operations of PromptLMFST\<close>

definition newState :: "PromptLMFST \<Rightarrow> PromptLMFST \<times> nat" where
  "newState g =
     (let c = state_counter g + 1
      in (g\<lparr>state_counter := c, states := AList.update c [] (states g)\<rparr>, c))"

definition curr_word :: "PromptLMFST \<Rightarrow> error + Word" where
  "curr_word g =
     (if \<not> initialised g then Inl RuntimeError
      else (case words g of [] \<Rightarrow> Inl IndexError | w # ws \<Rightarrow> Inr (last (words g))))"

definition addNextWord :: "label \<Rightarrow> PromptLMFST \<Rightarrow> error + PromptLMFST" where
  "addNextWord l g =
     (if \<not> initialised g then
        (let g1 = g\<lparr>states := AList.update (state_counter g) [] (states g)\<rparr>;
             s = state_counter g1;
             (g2, f) = newState g1
         in Inr (g2\<lparr>words := words g2 @ [\<lparr>label = l, start = s, final = f\<rparr>],
                    initialised := True\<rparr>))
      else
        (case curr_word g of
           Inl e \<Rightarrow> Inl e
         | Inr cw \<Rightarrow>
             (let (g1, f) = newState g
              in Inr (g1\<lparr>words := words g1 @ [\<lparr>label = l, start = final cw, final = f\<rparr>]\<rparr>))))"

definition homophoneArcExists :: "PromptLMFST \<Rightarrow> nat \<Rightarrow> label \<Rightarrow> error + bool" where
  "homophoneArcExists g from_state l =
     (case state_items g from_state of
        None \<Rightarrow> Inl (KeyError from_state)
      | Some its \<Rightarrow>
          Inr (\<exists>other_label \<in> set (map getattr_in_label its). l \<in> homophones g other_label))"

definition addArc ::
  "PromptLMFST \<Rightarrow> nat \<Rightarrow> nat \<Rightarrow> label \<Rightarrow> label \<Rightarrow> weight \<Rightarrow> error + PromptLMFST" where
  "addArc g from_state to_state in_label out_label w =
     (case homophoneArcExists g from_state in_label of
        Inl e \<Rightarrow> Inl e
      | Inr True \<Rightarrow> Inr g
      | Inr False \<Rightarrow>
          (case state_items g from_state of
             None \<Rightarrow> Inl (KeyError from_state)
           | Some its \<Rightarrow>
               Inr (g\<lparr>states :=
                 AList.update from_state
                   (its @ [Arc from_state to_state in_label out_label w]) (states g)\<rparr>)))"

definition addFinalState :: "PromptLMFST \<Rightarrow> nat \<Rightarrow> weight \<Rightarrow> error + PromptLMFST" where
  "addFinalState g state w =
     (case state_items g state of
        None \<Rightarrow> Inl (KeyError state)
      | Some its \<Rightarrow>
          Inr (g\<lparr>states := AList.update state (its @ [FinalState state w]) (states g)\<rparr>))"

text \<open>A for loop whose body can raise: the first exception ends the loop.\<close>

fun for_each :: "('a \<Rightarrow> 's \<Rightarrow> error + 's) \<Rightarrow> 'a list \<Rightarrow> 's \<Rightarrow> error + 's" where
  "for_each body [] s = Inr s"
| "for_each body (x # xs) s =
     (case body x s of Inl e \<Rightarrow> Inl e | Inr s' \<Rightarrow> for_each body xs s')"

definition addWordSequence :: "label list \<Rightarrow> PromptLMFST \<Rightarrow> error + PromptLMFST" where
  "addWordSequence sequence g = for_each addNextWord sequence g"

text \<open>
  isDeterministic. The inner loop over one state's items returns False at the first
  item whose getattr(item, "in\_label", None) was seen before; otherwise it reads
  item.in\_label, which a FinalState does not have. Inr True from the inner loop
  means that it ran to its end.
\<close>

fun isDeterministic_state :: "item list \<Rightarrow> label option set \<Rightarrow> error + bool" where
  "isDeterministic_state [] seen_labels = Inr True"
| "isDeterministic_state (it # its) seen_labels =
     (if getattr_in_label it \<in> seen_labels then Inr False
      else (case it of
              Arc from_state to_state in_label out_label w \<Rightarrow>
                isDeterministic_state its (insert (Some in_label) seen_labels)
            | FinalState state w \<Rightarrow> Inl AttributeError))"

fun isDeterministic_states :: "item list list \<Rightarrow> error + bool" where
  "isDeterministic_states [] = Inr True"
| "isDeterministic_states (state # rest) =
     (case isDeterministic_state state {} of
        Inl e \<Rightarrow> Inl e
      | Inr False \<Rightarrow> Inr False
      | Inr True \<Rightarrow> isDeterministic_states rest)"

definition isDeterministic :: "PromptLMFST \<Rightarrow> error + bool" where
  "isDeterministic g = isDeterministic_states (map snd (states g))"

text \<open>
  inText. Python's str of a state number and of a weight are parameters; str of a
  label is the label.
\<close>

fun join :: "string \<Rightarrow> string list \<Rightarrow> string" where
  "join sep [] = []"
| "join sep [x] = x"
| "join sep (x # y # ys) = x @ sep @ join sep (y # ys)"

fun map_str :: "(nat \<Rightarrow> string) \<Rightarrow> (weight \<Rightarrow> string) \<Rightarrow> item \<Rightarrow> string list" where
  "map_str str_int str_num (Arc from_state to_state in_label out_label w) =
     [str_int from_state, str_int to_state, in_label, out_label, str_num w]"
| "map_str str_int str_num (FinalState state w) = [str_int state, str_num w]"

definition inText :: "(nat \<Rightarrow> string) \<Rightarrow> (weight \<Rightarrow> string) \<Rightarrow> PromptLMFST \<Rightarrow> string" where
  "inText str_int str_num g =
     (case ID g of None \<Rightarrow> [] | Some i \<Rightarrow> i @ [CHR 0x0A])
     @ concat (map (\<lambda>state.
         concat (map (\<lambda>leaf. join '' '' (map_str str_int str_num leaf) @ [CHR 0x0A]) state))
         (map snd (states g)))"

section \<open>The weight table, the special labels and the recipes of make\_one\_miscue\_tolerant\_lm.py\<close>

record weight_table =
  Correct :: weight
  Rubbish :: weight
  Skip :: weight
  Repeat :: weight
  JumpForward :: weight
  JumpBackward :: weight
  Truncation :: weight
  PrematureEnd :: weight
  FinalState_weight :: weight

definition weights :: weight_table where
  "weights =
     \<lparr>Correct = 100, Rubbish = 5, Skip = 10, Repeat = 30, JumpForward = 5,
      JumpBackward = 5, Truncation = 5, PrematureEnd = 3, FinalState_weight = 0\<rparr>"

text \<open>
  The dict special\_labels. Its literal lacks the comma after the Epsilon entry; the
  three entries it is written to hold are these.
\<close>

definition special_Epsilon :: label where
  "special_Epsilon = ''<eps>''"

definition special_Rubbish :: label where
  "special_Rubbish = ''[RUB]''"

definition special_Skip :: label where
  "special_Skip = ''[SKP]''"

text \<open>p\_fst.words[-1]: IndexError on an empty list.\<close>

definition last_word :: "PromptLMFST \<Rightarrow> error + Word" where
  "last_word g = (case words g of [] \<Rightarrow> Inl IndexError | w # ws \<Rightarrow> Inr (last (words g)))"

definition addCorrectPaths :: "PromptLMFST \<Rightarrow> weight_table \<Rightarrow> error + PromptLMFST" where
  "addCorrectPaths p_fst wt =
     (case for_each (\<lambda>word g. addArc g (start word) (final word) (label word) (label word)
                                (Correct wt)) (words p_fst) p_fst of
        Inl e \<Rightarrow> Inl e
      | Inr g \<Rightarrow>
          (case last_word g of
             Inl e \<Rightarrow> Inl e
           | Inr lw \<Rightarrow> addFinalState g (final lw) (FinalState_weight wt)))"

definition addRubbishPaths :: "PromptLMFST \<Rightarrow> weight_table \<Rightarrow> error + PromptLMFST" where
  "addRubbishPaths p_fst wt =
     (case for_each (\<lambda>word g. addArc g (start word) (start word) special_Rubbish special_Rubbish
                                (Rubbish wt)) (words p_fst) p_fst of
        Inl e \<Rightarrow> Inl e
      | Inr g \<Rightarrow>
          (case last_word g of
             Inl e \<Rightarrow> Inl e
           | Inr lw \<Rightarrow>
               addArc g (final lw) (final lw) special_Rubbish special_Rubbish (Rubbish wt)))"

definition skip_step :: "weight_table \<Rightarrow> Word \<times> Word \<Rightarrow> PromptLMFST \<Rightarrow> error + PromptLMFST" where
  "skip_step wt pair g =
     (case pair of (word, next_word) \<Rightarrow>
        if label word \<noteq> label next_word then
          (let (g1, skip_state) = newState g
           in (case addArc g1 (start word) skip_state (label next_word) special_Skip (Skip wt) of
                 Inl e \<Rightarrow> Inl e
               | Inr g2 \<Rightarrow>
                   addArc g2 skip_state (final next_word) special_Epsilon (label next_word)
                     (Correct wt)))
        else Inr g)"

definition addSkipPaths :: "PromptLMFST \<Rightarrow> weight_table \<Rightarrow> error + PromptLMFST" where
  "addSkipPaths p_fst wt =
     (case for_each (skip_step wt) (zip (words p_fst) (tl (words p_fst))) p_fst of
        Inl e \<Rightarrow> Inl e
      | Inr g \<Rightarrow>
          (case last_word g of
             Inl e \<Rightarrow> Inl e
           | Inr lw \<Rightarrow>
               addArc g (start lw) (final lw) special_Epsilon special_Skip (Skip wt)))"

definition repeat_step :: "weight_table \<Rightarrow> Word \<times> Word \<Rightarrow> PromptLMFST \<Rightarrow> error + PromptLMFST" where
  "repeat_step wt pair g =
     (case pair of (word, next_word) \<Rightarrow>
        if label word \<noteq> label next_word then
          addArc g (final word) (final word) (label word) (label word) (Repeat wt)
        else Inr g)"

definition addRepeatPaths :: "PromptLMFST \<Rightarrow> weight_table \<Rightarrow> error + PromptLMFST" where
  "addRepeatPaths p_fst wt =
     (case for_each (repeat_step wt) (zip (words p_fst) (tl (words p_fst))) p_fst of
        Inl e \<Rightarrow> Inl e
      | Inr g \<Rightarrow>
          (case last_word g of
             Inl e \<Rightarrow> Inl e
           | Inr lw \<Rightarrow>
               addArc g (final lw) (final lw) (label lw) (label lw) (Repeat wt)))"

text \<open>Running one operation after another; an exception of the first ends the run.\<close>

definition and_then :: "error + 'a \<Rightarrow> ('a \<Rightarrow> error + 'b) \<Rightarrow> error + 'b" where
  "and_then r f = (case r of Inl e \<Rightarrow> Inl e | Inr x \<Rightarrow> f x)"

section \<open>Notions used in the statements\<close>

text \<open>An item of a state's list is an arc or a final-state marker.\<close>

fun is_Arc :: "item \<Rightarrow> bool" where
  "is_Arc (Arc from_state to_state in_label out_label w) = True"
| "is_Arc (FinalState state w) = False"

text \<open>
  The graphs that calls of the operations build from a new PromptLMFST, with the
  labels that addNextWord was called with, in order.
\<close>

inductive built :: "label list \<Rightarrow> PromptLMFST \<Rightarrow> bool" where
  built_init: "built [] (PromptLMFST_init h i)"
| built_addNextWord: "built ls g \<Longrightarrow> addNextWord l g = Inr g' \<Longrightarrow> built (ls @ [l]) g'"
| built_newState: "built ls g \<Longrightarrow> built ls (fst (newState g))"
| built_addArc: "built ls g \<Longrightarrow> addArc g s t il ol w = Inr g' \<Longrightarrow> built ls g'"
| built_addFinalState: "built ls g \<Longrightarrow> addFinalState g s w = Inr g' \<Longrightarrow> built ls g'"

text \<open>
  The graph of a word chain in closed form: the words of the labels ls, word k from
  state k to state k + 1, and the states 0 to length ls, with empty lists.
\<close>

definition word_chain :: "label list \<Rightarrow> Word list" where
  "word_chain ls = map (\<lambda>k. \<lparr>label = ls ! k, start = k, final = Suc k\<rparr>) [0..<length ls]"

definition chain_graph :: "homophone_index \<Rightarrow> string option \<Rightarrow> label list \<Rightarrow> PromptLMFST" where
  "chain_graph h i ls =
     \<lparr>ID = i, words = word_chain ls,
      states = (if ls = [] then [] else map (\<lambda>k. (k, [])) [0..<Suc (length ls)]),
      state_counter = length ls, initialised = (ls \<noteq> []), homophones = h\<rparr>"

text \<open>
  Paths and accepting states. A path from s to t is a list of arcs, each in the list
  of the state it leaves, each leaving the state the one before it enters. A state is
  accepting when its list holds a final-state marker. The input labels of a path are
  read with the special labels (epsilon, rubbish marker, skip marker) removed.
\<close>

fun is_path :: "PromptLMFST \<Rightarrow> nat \<Rightarrow> item list \<Rightarrow> nat \<Rightarrow> bool" where
  "is_path g s [] t = (s = t)"
| "is_path g s (Arc from_state to_state in_label out_label w # rest) t =
     (from_state = s
      \<and> (case state_items g s of
            None \<Rightarrow> False
          | Some its \<Rightarrow> Arc from_state to_state in_label out_label w \<in> set its)
      \<and> is_path g to_state rest t)"
| "is_path g s (FinalState state w # rest) t = False"

definition accepting :: "PromptLMFST \<Rightarrow> nat \<Rightarrow> bool" where
  "accepting g t =
     (case state_items g t of None \<Rightarrow> False | Some its \<Rightarrow> \<exists>it \<in> set its. \<not> is_Arc it)"

definition is_special_label :: "label \<Rightarrow> bool" where
  "is_special_label l \<longleftrightarrow> l = special_Epsilon \<or> l = special_Rubbish \<or> l = special_Skip"

definition input_labels :: "item list \<Rightarrow> label list" where
  "input_labels p = concat (map (\<lambda>it. case getattr_in_label it of None \<Rightarrow> [] | Some l \<Rightarrow> [l]) p)"

definition read_labels :: "item list \<Rightarrow> label list" where
  "read_labels p = filter (\<lambda>l. \<not> is_special_label l) (input_labels p)"

text \<open>Two graphs that differ at most in the lists of their states.\<close>

definition same_frame :: "PromptLMFST \<Rightarrow> PromptLMFST \<Rightarrow> bool" where
  "same_frame g' g \<longleftrightarrow>
     state_keys g' = state_keys g \<and> words g' = words g
     \<and> state_counter g' = state_counter g \<and> initialised g' = initialised g
     \<and> homophones g' = homophones g \<and> ID g' = ID g"

text \<open>
  What every graph built by the operations satisfies: no key of states exceeds the
  counter, the start and final states of the words are keys, no two words share a
  start state or a final state, the final state of the last word is no word's start
  state, and initialised holds exactly when there is a word.
\<close>

definition chain_ok :: "PromptLMFST \<Rightarrow> bool" where
  "chain_ok g \<longleftrightarrow>
     (\<forall>k \<in> set (state_keys g). k \<le> state_counter g)
     \<and> (\<forall>w \<in> set (words g). start w \<in> set (state_keys g) \<and> final w \<in> set (state_keys g))
     \<and> distinct (map start (words g)) \<and> distinct (map final (words g))
     \<and> (words g \<noteq> [] \<longrightarrow> final (last (words g)) \<notin> start ` set (words g))
     \<and> (initialised g \<longleftrightarrow> words g \<noteq> [])"

text \<open>The adjacent pairs of words with different labels, in the order of the chain.\<close>

definition differing_pairs :: "Word list \<Rightarrow> (Word \<times> Word) list" where
  "differing_pairs ws =
     filter (\<lambda>(word, next_word). label word \<noteq> label next_word) (zip ws (tl ws))"


text \<open>
  A list of items in which no arc has an input label that the index lists as a
  homophone of the input label of an arc before it; and the graphs all of whose
  lists are such.
\<close>

definition homophone_free :: "homophone_index \<Rightarrow> item list \<Rightarrow> bool" where
  "homophone_free h its \<longleftrightarrow>
     (\<forall>j < length its. \<forall>i < j. \<forall>li lj.
        getattr_in_label (its ! i) = Some li \<and> getattr_in_label (its ! j) = Some lj
        \<longrightarrow> lj \<notin> h (Some li))"

definition guard_inv :: "PromptLMFST \<Rightarrow> bool" where
  "guard_inv g \<longleftrightarrow> (\<forall>s its. state_items g s = Some its \<longrightarrow> homophone_free (homophones g) its)"

section \<open>Example graphs\<close>

text \<open>
  The graph of the prompt a b a with no homophone file, after the word chain, the
  correct paths, the rubbish paths, the skip paths and the repeat paths.
\<close>

definition graph_a_b_a :: PromptLMFST where
  "graph_a_b_a =
     \<lparr>ID = None,
      words = [\<lparr>label = ''a'', start = 0, final = 1\<rparr>,
               \<lparr>label = ''b'', start = 1, final = 2\<rparr>,
               \<lparr>label = ''a'', start = 2, final = 3\<rparr>],
      states =
        [(0, [Arc 0 1 ''a'' ''a'' 100, Arc 0 0 ''[RUB]'' ''[RUB]'' 5,
              Arc 0 4 ''b'' ''[SKP]'' 10]),
         (1, [Arc 1 2 ''b'' ''b'' 100, Arc 1 1 ''[RUB]'' ''[RUB]'' 5,
              Arc 1 5 ''a'' ''[SKP]'' 10, Arc 1 1 ''a'' ''a'' 30]),
         (2, [Arc 2 3 ''a'' ''a'' 100, Arc 2 2 ''[RUB]'' ''[RUB]'' 5,
              Arc 2 3 ''<eps>'' ''[SKP]'' 10, Arc 2 2 ''b'' ''b'' 30]),
         (3, [FinalState 3 0, Arc 3 3 ''[RUB]'' ''[RUB]'' 5, Arc 3 3 ''a'' ''a'' 30]),
         (4, [Arc 4 2 ''<eps>'' ''b'' 100]),
         (5, [Arc 5 3 ''<eps>'' ''a'' 100])],
      state_counter = 5, initialised = True, homophones = readHomophones None\<rparr>"

text \<open>The graph of the one-word prompt a after the word chain and the correct paths.\<close>

definition graph_a_correct :: PromptLMFST where
  "graph_a_correct =
     \<lparr>ID = None,
      words = [\<lparr>label = ''a'', start = 0, final = 1\<rparr>],
      states = [(0, [Arc 0 1 ''a'' ''a'' 100]), (1, [FinalState 1 0])],
      state_counter = 1, initialised = True, homophones = readHomophones None\<rparr>"

text \<open>
  A graph with two arcs of relative weights 10 and 30 leaving state 0, and state 1
  final.
\<close>

definition graph_10_30 :: PromptLMFST where
  "graph_10_30 =
     \<lparr>ID = Some ''p1'',
      words = [\<lparr>label = ''a'', start = 0, final = 1\<rparr>],
      states = [(0, [Arc 0 1 ''a'' ''a'' 10, Arc 0 0 ''b'' ''b'' 30]), (1, [FinalState 1 0])],
      state_counter = 1, initialised = True, homophones = readHomophones None\<rparr>"

text \<open>
  A graph with the homophone group read red, whose state 0 has one arc, with input
  label read.
\<close>

definition graph_read :: PromptLMFST where
  "graph_read =
     \<lparr>ID = None,
      words = [\<lparr>label = ''read'', start = 0, final = 1\<rparr>],
      states = [(0, [Arc 0 1 ''read'' ''read'' 100]), (1, [FinalState 1 0])],
      state_counter = 1, initialised = True,
      homophones = readHomophones (Some [[''read'', ''red'']])\<rparr>"

text \<open>
  The graph of the one-word prompt whose word is the epsilon label, after the word
  chain, and after the correct paths.
\<close>

definition graph_eps_chain :: PromptLMFST where
  "graph_eps_chain =
     \<lparr>ID = None,
      words = [\<lparr>label = ''<eps>'', start = 0, final = 1\<rparr>],
      states = [(0, []), (1, [])],
      state_counter = 1, initialised = True, homophones = readHomophones None\<rparr>"

definition graph_eps_correct :: PromptLMFST where
  "graph_eps_correct =
     \<lparr>ID = None,
      words = [\<lparr>label = ''<eps>'', start = 0, final = 1\<rparr>],
      states = [(0, [Arc 0 1 ''<eps>'' ''<eps>'' 100]), (1, [FinalState 1 0])],
      state_counter = 1, initialised = True, homophones = readHomophones None\<rparr>"

text \<open>
  The graphs of the prompt A A B with no homophone file: after the word chain, the
  correct paths, the rubbish paths, the skip paths and the repeat paths.
\<close>

definition graph_aab_chain :: PromptLMFST where
  "graph_aab_chain =
     \<lparr>ID = None,
      words = [\<lparr>label = ''A'', start = 0, final = 1\<rparr>,
               \<lparr>label = ''A'', start = 1, final = 2\<rparr>,
               \<lparr>label = ''B'', start = 2, final = 3\<rparr>],
      states =
        [(0, []), (1, []), (2, []), (3, [])],
      state_counter = 3, initialised = True,
      homophones = readHomophones None\<rparr>"

definition graph_aab_correct :: PromptLMFST where
  "graph_aab_correct =
     \<lparr>ID = None,
      words = [\<lparr>label = ''A'', start = 0, final = 1\<rparr>,
               \<lparr>label = ''A'', start = 1, final = 2\<rparr>,
               \<lparr>label = ''B'', start = 2, final = 3\<rparr>],
      states =
        [(0, [Arc 0 1 ''A'' ''A'' 100]),
         (1, [Arc 1 2 ''A'' ''A'' 100]),
         (2, [Arc 2 3 ''B'' ''B'' 100]),
         (3, [FinalState 3 0])],
      state_counter = 3, initialised = True,
      homophones = readHomophones None\<rparr>"

definition graph_aab_rubbish :: PromptLMFST where
  "graph_aab_rubbish =
     \<lparr>ID = None,
      words = [\<lparr>label = ''A'', start = 0, final = 1\<rparr>,
               \<lparr>label = ''A'', start = 1, final = 2\<rparr>,
               \<lparr>label = ''B'', start = 2, final = 3\<rparr>],
      states =
        [(0, [Arc 0 1 ''A'' ''A'' 100, Arc 0 0 ''[RUB]'' ''[RUB]'' 5]),
         (1, [Arc 1 2 ''A'' ''A'' 100, Arc 1 1 ''[RUB]'' ''[RUB]'' 5]),
         (2, [Arc 2 3 ''B'' ''B'' 100, Arc 2 2 ''[RUB]'' ''[RUB]'' 5]),
         (3, [FinalState 3 0, Arc 3 3 ''[RUB]'' ''[RUB]'' 5])],
      state_counter = 3, initialised = True,
      homophones = readHomophones None\<rparr>"

definition graph_aab_skip :: PromptLMFST where
  "graph_aab_skip =
     \<lparr>ID = None,
      words = [\<lparr>label = ''A'', start = 0, final = 1\<rparr>,
               \<lparr>label = ''A'', start = 1, final = 2\<rparr>,
               \<lparr>label = ''B'', start = 2, final = 3\<rparr>],
      states =
        [(0, [Arc 0 1 ''A'' ''A'' 100, Arc 0 0 ''[RUB]'' ''[RUB]'' 5]),
         (1, [Arc 1 2 ''A'' ''A'' 100, Arc 1 1 ''[RUB]'' ''[RUB]'' 5, Arc 1 4 ''B'' ''[SKP]'' 10]),
         (2, [Arc 2 3 ''B'' ''B'' 100, Arc 2 2 ''[RUB]'' ''[RUB]'' 5, Arc 2 3 ''<eps>'' ''[SKP]'' 10]),
         (3, [FinalState 3 0, Arc 3 3 ''[RUB]'' ''[RUB]'' 5]),
         (4, [Arc 4 3 ''<eps>'' ''B'' 100])],
      state_counter = 4, initialised = True,
      homophones = readHomophones None\<rparr>"

definition graph_aab_repeat :: PromptLMFST where
  "graph_aab_repeat =
     \<lparr>ID = None,
      words = [\<lparr>label = ''A'', start = 0, final = 1\<rparr>,
               \<lparr>label = ''A'', start = 1, final = 2\<rparr>,
               \<lparr>label = ''B'', start = 2, final = 3\<rparr>],
      states =
        [(0, [Arc 0 1 ''A'' ''A'' 100, Arc 0 0 ''[RUB]'' ''[RUB]'' 5]),
         (1, [Arc 1 2 ''A'' ''A'' 100, Arc 1 1 ''[RUB]'' ''[RUB]'' 5, Arc 1 4 ''B'' ''[SKP]'' 10]),
         (2, [Arc 2 3 ''B'' ''B'' 100, Arc 2 2 ''[RUB]'' ''[RUB]'' 5, Arc 2 3 ''<eps>'' ''[SKP]'' 10, Arc 2 2 ''A'' ''A'' 30]),
         (3, [FinalState 3 0, Arc 3 3 ''[RUB]'' ''[RUB]'' 5, Arc 3 3 ''B'' ''B'' 30]),
         (4, [Arc 4 3 ''<eps>'' ''B'' 100])],
      state_counter = 4, initialised = True,
      homophones = readHomophones None\<rparr>"

text \<open>
  The graphs of the prompt read red with the homophone group read red, at the same
  five stages.
\<close>

definition graph_rr_chain :: PromptLMFST where
  "graph_rr_chain =
     \<lparr>ID = None,
      words = [\<lparr>label = ''read'', start = 0, final = 1\<rparr>,
               \<lparr>label = ''red'', start = 1, final = 2\<rparr>],
      states =
        [(0, []), (1, []), (2, [])],
      state_counter = 2, initialised = True,
      homophones = readHomophones (Some [[''read'', ''red'']])\<rparr>"

definition graph_rr_correct :: PromptLMFST where
  "graph_rr_correct =
     \<lparr>ID = None,
      words = [\<lparr>label = ''read'', start = 0, final = 1\<rparr>,
               \<lparr>label = ''red'', start = 1, final = 2\<rparr>],
      states =
        [(0, [Arc 0 1 ''read'' ''read'' 100]),
         (1, [Arc 1 2 ''red'' ''red'' 100]),
         (2, [FinalState 2 0])],
      state_counter = 2, initialised = True,
      homophones = readHomophones (Some [[''read'', ''red'']])\<rparr>"

definition graph_rr_rubbish :: PromptLMFST where
  "graph_rr_rubbish =
     \<lparr>ID = None,
      words = [\<lparr>label = ''read'', start = 0, final = 1\<rparr>,
               \<lparr>label = ''red'', start = 1, final = 2\<rparr>],
      states =
        [(0, [Arc 0 1 ''read'' ''read'' 100, Arc 0 0 ''[RUB]'' ''[RUB]'' 5]),
         (1, [Arc 1 2 ''red'' ''red'' 100, Arc 1 1 ''[RUB]'' ''[RUB]'' 5]),
         (2, [FinalState 2 0, Arc 2 2 ''[RUB]'' ''[RUB]'' 5])],
      state_counter = 2, initialised = True,
      homophones = readHomophones (Some [[''read'', ''red'']])\<rparr>"

definition graph_rr_skip :: PromptLMFST where
  "graph_rr_skip =
     \<lparr>ID = None,
      words = [\<lparr>label = ''read'', start = 0, final = 1\<rparr>,
               \<lparr>label = ''red'', start = 1, final = 2\<rparr>],
      states =
        [(0, [Arc 0 1 ''read'' ''read'' 100, Arc 0 0 ''[RUB]'' ''[RUB]'' 5]),
         (1, [Arc 1 2 ''red'' ''red'' 100, Arc 1 1 ''[RUB]'' ''[RUB]'' 5, Arc 1 2 ''<eps>'' ''[SKP]'' 10]),
         (2, [FinalState 2 0, Arc 2 2 ''[RUB]'' ''[RUB]'' 5]),
         (3, [Arc 3 2 ''<eps>'' ''red'' 100])],
      state_counter = 3, initialised = True,
      homophones = readHomophones (Some [[''read'', ''red'']])\<rparr>"

definition graph_rr_repeat :: PromptLMFST where
  "graph_rr_repeat =
     \<lparr>ID = None,
      words = [\<lparr>label = ''read'', start = 0, final = 1\<rparr>,
               \<lparr>label = ''red'', start = 1, final = 2\<rparr>],
      states =
        [(0, [Arc 0 1 ''read'' ''read'' 100, Arc 0 0 ''[RUB]'' ''[RUB]'' 5]),
         (1, [Arc 1 2 ''red'' ''red'' 100, Arc 1 1 ''[RUB]'' ''[RUB]'' 5, Arc 1 2 ''<eps>'' ''[SKP]'' 10]),
         (2, [FinalState 2 0, Arc 2 2 ''[RUB]'' ''[RUB]'' 5, Arc 2 2 ''red'' ''red'' 30]),
         (3, [Arc 3 2 ''<eps>'' ''red'' 100])],
      state_counter = 3, initialised = True,
      homophones = readHomophones (Some [[''read'', ''red'']])\<rparr>"

section \<open>Evaluating the construction\<close>

lemmas construction_defs =
  and_then_def addWordSequence_def addNextWord_def newState_def PromptLMFST_init_def
  curr_word_def addCorrectPaths_def addArc_def homophoneArcExists_def state_items_def
  last_word_def addFinalState_def addRubbishPaths_def addSkipPaths_def skip_step_def
  addRepeatPaths_def repeat_step_def readHomophones_def readHomophones_line_def
  weights_def special_Epsilon_def special_Rubbish_def special_Skip_def

section \<open>Loops and the homophone index\<close>

lemma for_each_append:
  "for_each body (xs @ ys) s =
     (case for_each body xs s of Inl e \<Rightarrow> Inl e | Inr s' \<Rightarrow> for_each body ys s')"
  by (induction xs arbitrary: s) (auto split: sum.splits)

lemma fold_union_entry:
  "fold (\<lambda>word h. h(Some word := S \<union> h (Some word))) ws h k =
     (case k of None \<Rightarrow> h None
      | Some w \<Rightarrow> if w \<in> set ws then S \<union> h (Some w) else h (Some w))"
  by (induction ws arbitrary: h) (auto split: option.splits)

lemma readHomophones_line_lookup:
  "readHomophones_line line h k =
     (case k of None \<Rightarrow> h None
      | Some w \<Rightarrow> if w \<in> set line then set line \<union> h (Some w) else h (Some w))"
  by (simp add: readHomophones_line_def fold_union_entry)

lemma fold_readHomophones_line_None:
  "fold readHomophones_line ls h None = h None"
  by (induction ls arbitrary: h) (simp_all add: readHomophones_line_lookup)

lemma fold_readHomophones_line_Some:
  "fold readHomophones_line ls h (Some w) =
     h (Some w) \<union> \<Union> {set line | line. line \<in> set ls \<and> w \<in> set line}"
  by (induction ls arbitrary: h) (auto simp add: readHomophones_line_lookup)

text \<open>No index that readHomophones builds has an entry under None.\<close>

lemma readHomophones_None_key: "readHomophones src None = {}"
  by (cases src) (simp_all add: readHomophones_def fold_readHomophones_line_None)

lemma readHomophones_no_file: "readHomophones None k = {}"
  by (simp add: readHomophones_def)

text \<open>Two words are homophones in the index of a file when some line has both.\<close>

lemma readHomophones_same_line:
  "a \<in> readHomophones (Some ls) (Some b) \<longleftrightarrow> (\<exists>line \<in> set ls. a \<in> set line \<and> b \<in> set line)"
  by (auto simp add: readHomophones_def fold_readHomophones_line_Some)

section \<open>The state lists under the operations\<close>

lemma state_items_update:
  "state_items (g\<lparr>states := AList.update k v (states g)\<rparr>) s =
     (if s = k then Some v else state_items g s)"
  by (simp add: state_items_def update_conv')

lemma state_keys_update_present:
  "state_items g k = Some its \<Longrightarrow>
     state_keys (g\<lparr>states := AList.update k v (states g)\<rparr>) = state_keys g"
  by (auto simp add: state_items_def state_keys_def update_keys dest: map_of_SomeD
        intro: rev_image_eqI)

lemma homophoneArcExists_result:
  "state_items g s = Some its \<Longrightarrow>
     homophoneArcExists g s l = Inr (\<exists>it \<in> set its. l \<in> homophones g (getattr_in_label it))"
  by (simp add: homophoneArcExists_def)

lemma addArc_result:
  assumes "state_items g s = Some its"
  shows "addArc g s t l ol w =
     Inr (if (\<exists>it \<in> set its. l \<in> homophones g (getattr_in_label it)) then g
          else g\<lparr>states := AList.update s (its @ [Arc s t l ol w]) (states g)\<rparr>)"
  using assms by (simp add: addArc_def homophoneArcExists_def)

lemma addArc_missing: "state_items g s = None \<Longrightarrow> addArc g s t l ol w = Inl (KeyError s)"
  by (simp add: addArc_def homophoneArcExists_def)

lemma in_label_Some_iff:
  "getattr_in_label it = Some l' \<longleftrightarrow> (\<exists>f t ol w. it = Arc f t l' ol w)"
  by (cases it) auto

lemma addFinalState_result:
  "state_items g s = Some its \<Longrightarrow>
     addFinalState g s w =
       Inr (g\<lparr>states := AList.update s (its @ [FinalState s w]) (states g)\<rparr>)"
  by (simp add: addFinalState_def)

lemma addFinalState_InrD:
  "addFinalState g s w = Inr g1 \<Longrightarrow>
     \<exists>its. state_items g s = Some its
       \<and> g1 = g\<lparr>states := AList.update s (its @ [FinalState s w]) (states g)\<rparr>"
  by (auto simp add: addFinalState_def split: option.splits)

lemma guard_ignores_markers:
  "h None = {} \<Longrightarrow>
     (\<exists>it \<in> set its. l \<in> h (getattr_in_label it)) =
     (\<exists>it \<in> set (filter is_Arc its). l \<in> h (getattr_in_label it))"
proof (induction its)
  case Nil
  then show ?case by simp
next
  case (Cons it its)
  then show ?case by (cases it) auto
qed

section \<open>The word chain\<close>

lemma update_new_key: "k \<notin> fst ` set al \<Longrightarrow> AList.update k v al = al @ [(k, v)]"
  by (induction al) auto

lemma word_chain_snoc:
  "word_chain (ls @ [l]) = word_chain ls @ [\<lparr>label = l, start = length ls, final = Suc (length ls)\<rparr>]"
  by (simp add: word_chain_def nth_append)

lemma word_chain_Nil: "word_chain [] = []"
  by (simp add: word_chain_def)

lemma last_word_chain:
  "ls \<noteq> [] \<Longrightarrow> last (word_chain ls) = \<lparr>label = last ls, start = length ls - 1, final = length ls\<rparr>"
  by (cases ls rule: rev_cases) (simp_all add: word_chain_snoc)

lemma word_chain_eq_Nil: "word_chain ls = [] \<longleftrightarrow> ls = []"
  by (simp add: word_chain_def)

lemma addNextWord_chain_graph:
  "addNextWord l (chain_graph h i ls) = Inr (chain_graph h i (ls @ [l]))"
proof (cases "ls = []")
  case True
  then show ?thesis
    by (simp add: addNextWord_def chain_graph_def newState_def word_chain_def)
next
  case False
  let ?g = "chain_graph h i ls"
  let ?n = "length ls"
  have st: "states ?g = map (\<lambda>k. (k, [])) [0..<Suc ?n]"
    using False by (simp add: chain_graph_def)
  have cnt: "state_counter ?g = ?n" by (simp add: chain_graph_def)
  have ini: "initialised ?g" using False by (simp add: chain_graph_def)
  have wds: "words ?g = word_chain ls" by (simp add: chain_graph_def)
  have ns: "newState ?g =
      (?g\<lparr>state_counter := Suc ?n, states := map (\<lambda>k. (k, [])) [0..<Suc (Suc ?n)]\<rparr>, Suc ?n)"
  proof -
    have "Suc ?n \<notin> fst ` set (states ?g)" by (auto simp add: st)
    then have "AList.update (Suc ?n) [] (states ?g) = states ?g @ [(Suc ?n, [])]"
      by (rule update_new_key)
    then show ?thesis by (simp add: newState_def cnt) (simp add: st)
  qed
  have c: "curr_word ?g = Inr (last (word_chain ls))"
    using False ini by (simp add: curr_word_def wds word_chain_eq_Nil split: list.splits)
  have "addNextWord l ?g =
      Inr (?g\<lparr>state_counter := Suc ?n, states := map (\<lambda>k. (k, [])) [0..<Suc (Suc ?n)],
               words := word_chain ls @ [\<lparr>label = l, start = ?n, final = Suc ?n\<rparr>]\<rparr>)"
    using False ini by (simp add: addNextWord_def c ns last_word_chain wds)
  also have "?g\<lparr>state_counter := Suc ?n, states := map (\<lambda>k. (k, [])) [0..<Suc (Suc ?n)],
               words := word_chain ls @ [\<lparr>label = l, start = ?n, final = Suc ?n\<rparr>]\<rparr>
      = chain_graph h i (ls @ [l])"
    using False by (simp add: chain_graph_def word_chain_snoc)
  finally show ?thesis .
qed

lemma addWordSequence_chain_graph:
  "addWordSequence ls' (chain_graph h i ls) = Inr (chain_graph h i (ls @ ls'))"
  unfolding addWordSequence_def
  by (induction ls' arbitrary: ls) (simp_all add: addNextWord_chain_graph)

lemma chain_graph_Nil: "chain_graph h i [] = PromptLMFST_init h i"
  by (simp add: chain_graph_def PromptLMFST_init_def word_chain_def)

lemma addWordSequence_init:
  "addWordSequence ls (PromptLMFST_init h i) = Inr (chain_graph h i ls)"
  using addWordSequence_chain_graph[of ls h i "[]"] by (simp add: chain_graph_Nil)

lemma length_word_chain: "length (word_chain ls) = length ls"
  by (simp add: word_chain_def)

lemma word_chain_nth:
  "k < length ls \<Longrightarrow> word_chain ls ! k = \<lparr>label = ls ! k, start = k, final = Suc k\<rparr>"
  by (simp add: word_chain_def)

lemma map_label_word_chain: "map label (word_chain ls) = ls"
  by (simp add: word_chain_def comp_def map_nth)

lemma take_word_chain: "take k (word_chain ls) = word_chain (take k ls)"
  by (rule nth_equalityI) (simp_all add: length_word_chain word_chain_nth)

lemma state_keys_chain_graph:
  "state_keys (chain_graph h i ls) = (if ls = [] then [] else [0..<Suc (length ls)])"
  by (simp add: state_keys_def chain_graph_def comp_def map_idI)

lemma map_of_empty_lists:
  "map_of (map (\<lambda>k. (k, v)) xs) j = (if j \<in> set xs then Some v else None)"
  by (induction xs) auto

lemma state_items_chain_graph:
  "state_items (chain_graph h i ls) j = (if ls \<noteq> [] \<and> j \<le> length ls then Some [] else None)"
  unfolding state_items_def chain_graph_def
  by (auto simp add: map_of_empty_lists simp del: upt_Suc)

section \<open>Loops of guarded arc insertions\<close>

lemma homophoneArcExists_cong:
  "state_items g1 s = state_items g s \<Longrightarrow> homophones g1 = homophones g \<Longrightarrow>
     homophoneArcExists g1 s l = homophoneArcExists g s l"
  by (simp add: homophoneArcExists_def split: option.splits)

lemma addArc_effect:
  assumes "state_items g s = Some its"
  shows "\<exists>g'. addArc g s t l ol w = Inr g'
     \<and> state_items g' s =
         Some (its @ (if homophoneArcExists g s l = Inr True then [] else [Arc s t l ol w]))
     \<and> (\<forall>k. k \<noteq> s \<longrightarrow> state_items g' k = state_items g k)
     \<and> state_keys g' = state_keys g \<and> words g' = words g
     \<and> state_counter g' = state_counter g \<and> initialised g' = initialised g
     \<and> homophones g' = homophones g \<and> ID g' = ID g"
proof -
  let ?b = "\<exists>it \<in> set its. l \<in> homophones g (getattr_in_label it)"
  let ?g' = "if ?b then g else g\<lparr>states := AList.update s (its @ [Arc s t l ol w]) (states g)\<rparr>"
  have h: "homophoneArcExists g s l = Inr ?b"
    using assms by (rule homophoneArcExists_result)
  have r: "addArc g s t l ol w = Inr ?g'"
    using assms by (rule addArc_result)
  have i1: "state_items ?g' s = Some (its @ (if ?b then [] else [Arc s t l ol w]))"
    using assms by (simp add: state_items_update)
  have i2: "\<forall>k. k \<noteq> s \<longrightarrow> state_items ?g' k = state_items g k"
    by (simp add: state_items_update)
  have k: "state_keys ?g' = state_keys g"
    using assms by (simp add: state_keys_update_present)
  have f: "words ?g' = words g \<and> state_counter ?g' = state_counter g
     \<and> initialised ?g' = initialised g \<and> homophones ?g' = homophones g \<and> ID ?g' = ID g"
    by simp
  show ?thesis
    unfolding h using r i1 i2 k f by (intro exI[of _ ?g']) simp
qed

lemma for_each_addArc:
  assumes "distinct (map fr xs)" and "\<forall>x \<in> set xs. state_items g (fr x) \<noteq> None"
  shows "\<exists>g'. for_each (\<lambda>x g. addArc g (fr x) (to x) (il x) (ol x) (wt x)) xs g = Inr g'
     \<and> (\<forall>x \<in> set xs. \<forall>its. state_items g (fr x) = Some its \<longrightarrow>
           state_items g' (fr x) =
             Some (its @ (if homophoneArcExists g (fr x) (il x) = Inr True then []
                          else [Arc (fr x) (to x) (il x) (ol x) (wt x)])))
     \<and> (\<forall>s. s \<notin> fr ` set xs \<longrightarrow> state_items g' s = state_items g s)
     \<and> same_frame g' g"
  using assms
proof (induction xs arbitrary: g)
  case Nil
  then show ?case by (simp add: same_frame_def)
next
  case (Cons x xs)
  let ?body = "\<lambda>x g. addArc g (fr x) (to x) (il x) (ol x) (wt x)"
  from Cons.prems obtain its where its: "state_items g (fr x) = Some its" by auto
  from addArc_effect[OF its, of "to x" "il x" "ol x" "wt x"]
  obtain g1 where a: "addArc g (fr x) (to x) (il x) (ol x) (wt x) = Inr g1"
    and i1: "state_items g1 (fr x) =
         Some (its @ (if homophoneArcExists g (fr x) (il x) = Inr True then []
                      else [Arc (fr x) (to x) (il x) (ol x) (wt x)]))"
    and o1: "\<forall>k. k \<noteq> fr x \<longrightarrow> state_items g1 k = state_items g k"
    and f1: "same_frame g1 g"
    unfolding same_frame_def by blast
  have d: "distinct (map fr xs)" and nx: "fr x \<notin> fr ` set xs" using Cons.prems(1) by auto
  have e: "\<forall>y \<in> set xs. state_items g1 (fr y) \<noteq> None"
    using Cons.prems(2) o1 nx by (metis image_eqI list.set_intros(2))
  from Cons.IH[OF d e] obtain g' where
    r: "for_each ?body xs g1 = Inr g'"
    and i': "\<forall>y \<in> set xs. \<forall>its. state_items g1 (fr y) = Some its \<longrightarrow>
           state_items g' (fr y) =
             Some (its @ (if homophoneArcExists g1 (fr y) (il y) = Inr True then []
                          else [Arc (fr y) (to y) (il y) (ol y) (wt y)]))"
    and o': "\<forall>s. s \<notin> fr ` set xs \<longrightarrow> state_items g' s = state_items g1 s"
    and f': "same_frame g' g1"
    by blast
  have hom: "homophones g1 = homophones g" using f1 by (simp add: same_frame_def)
  have R: "for_each ?body (x # xs) g = Inr g'" using a r by simp
  have I: "\<forall>y \<in> set (x # xs). \<forall>its. state_items g (fr y) = Some its \<longrightarrow>
           state_items g' (fr y) =
             Some (its @ (if homophoneArcExists g (fr y) (il y) = Inr True then []
                          else [Arc (fr y) (to y) (il y) (ol y) (wt y)]))"
  proof (intro ballI allI impI)
    fix y its' assume y: "y \<in> set (x # xs)" and s: "state_items g (fr y) = Some its'"
    show "state_items g' (fr y) =
             Some (its' @ (if homophoneArcExists g (fr y) (il y) = Inr True then []
                          else [Arc (fr y) (to y) (il y) (ol y) (wt y)]))"
    proof (cases "y \<in> set xs")
      case True
      have ne: "fr y \<noteq> fr x"
      proof
        assume "fr y = fr x"
        then have "fr x \<in> fr ` set xs" using True by (metis imageI)
        then show False using nx by simp
      qed
      have s1: "state_items g1 (fr y) = state_items g (fr y)" using o1 ne by simp
      have h1: "homophoneArcExists g1 (fr y) (il y) = homophoneArcExists g (fr y) (il y)"
        using s1 hom by (rule homophoneArcExists_cong)
      show ?thesis using i' True s s1 h1 by simp
    next
      case False
      then have yx: "y = x" using y by simp
      have "state_items g' (fr x) = state_items g1 (fr x)" using o' nx by simp
      then show ?thesis using i1 its s yx by simp
    qed
  qed
  have O: "\<forall>s. s \<notin> fr ` set (x # xs) \<longrightarrow> state_items g' s = state_items g s"
    using o' o1 by simp
  have F: "same_frame g' g" using f' f1 by (simp add: same_frame_def)
  show ?case using R I O F by blast
qed

section \<open>The correct paths on a word chain\<close>

lemma map_start_word_chain: "map start (word_chain ls) = [0..<length ls]"
  by (simp add: word_chain_def comp_def map_idI)

lemma set_word_chain:
  "w \<in> set (word_chain ls) \<longleftrightarrow>
     (\<exists>k < length ls. w = \<lparr>label = ls ! k, start = k, final = Suc k\<rparr>)"
  by (auto simp add: word_chain_def)

lemma is_path_chain:
  assumes "\<forall>k < n. \<exists>its. state_items g k = Some its \<and> Arc k (Suc k) (a k) (b k) c \<in> set its"
  shows "j \<le> n \<Longrightarrow> is_path g j (map (\<lambda>k. Arc k (Suc k) (a k) (b k) c) [j..<n]) n"
proof (induction "n - j" arbitrary: j)
  case 0
  then show ?case by simp
next
  case (Suc d)
  then have jn: "j < n" by simp
  have u: "[j..<n] = j # [Suc j..<n]" using jn by (simp add: upt_conv_Cons)
  have r: "is_path g (Suc j) (map (\<lambda>k. Arc k (Suc k) (a k) (b k) c) [Suc j..<n]) n"
    using Suc.hyps(1)[of "Suc j"] Suc.hyps(2) jn by simp
  from assms jn obtain its where "state_items g j = Some its"
    and "Arc j (Suc j) (a j) (b j) c \<in> set its" by blast
  then show ?case using r by (simp add: u)
qed

lemma input_labels_arcs:
  "input_labels (map (\<lambda>k. Arc (f k) (t k) (a k) (b k) (c k)) ks) = map a ks"
  by (induction ks) (simp_all add: input_labels_def)

lemma correct_paths_on_chain:
  assumes "ls \<noteq> []"
  shows "\<exists>g2. addCorrectPaths (chain_graph h i ls) wt = Inr g2
     \<and> words g2 = word_chain ls
     \<and> (\<forall>k < length ls. state_items g2 k = Some [Arc k (Suc k) (ls ! k) (ls ! k) (Correct wt)])
     \<and> state_items g2 (length ls) = Some [FinalState (length ls) (FinalState_weight wt)]"
proof -
  let ?g1 = "chain_graph h i ls"
  let ?n = "length ls"
  have w1: "words ?g1 = word_chain ls" by (simp add: chain_graph_def)
  have d: "distinct (map start (word_chain ls))" by (simp add: map_start_word_chain)
  have e: "\<forall>x \<in> set (word_chain ls). state_items ?g1 (start x) \<noteq> None"
    using assms by (auto simp add: set_word_chain state_items_chain_graph)
  from for_each_addArc[OF d e, of final label label "\<lambda>x. Correct wt"]
  obtain g' where
    r: "for_each (\<lambda>x g. addArc g (start x) (final x) (label x) (label x) (Correct wt))
          (word_chain ls) ?g1 = Inr g'"
    and i': "\<forall>x \<in> set (word_chain ls). \<forall>its. state_items ?g1 (start x) = Some its \<longrightarrow>
           state_items g' (start x) =
             Some (its @ (if homophoneArcExists ?g1 (start x) (label x) = Inr True then []
                          else [Arc (start x) (final x) (label x) (label x) (Correct wt)]))"
    and o': "\<forall>s. s \<notin> start ` set (word_chain ls) \<longrightarrow> state_items g' s = state_items ?g1 s"
    and f': "same_frame g' ?g1"
    by blast
  have wg': "words g' = word_chain ls" using f' w1 by (simp add: same_frame_def)
  have items: "\<forall>k < ?n. state_items g' k = Some [Arc k (Suc k) (ls ! k) (ls ! k) (Correct wt)]"
  proof (intro allI impI)
    fix k assume k: "k < ?n"
    let ?w = "\<lparr>label = ls ! k, start = k, final = Suc k\<rparr>"
    have m: "?w \<in> set (word_chain ls)" using k by (auto simp add: set_word_chain)
    have s: "state_items ?g1 (start ?w) = Some []"
      using k assms by (simp add: state_items_chain_graph)
    have g: "homophoneArcExists ?g1 (start ?w) (label ?w) = Inr False"
      using homophoneArcExists_result[OF s] by simp
    show "state_items g' k = Some [Arc k (Suc k) (ls ! k) (ls ! k) (Correct wt)]"
      using i' m s g by fastforce
  qed
  have nn: "?n \<notin> start ` set (word_chain ls)"
  proof -
    have "start ` set (word_chain ls) = set (map start (word_chain ls))" by simp
    then show ?thesis unfolding map_start_word_chain by simp
  qed
  have sn: "state_items g' ?n = Some []"
    using o' nn assms by (simp add: state_items_chain_graph)
  have lw: "last_word g' = Inr (last (word_chain ls))"
    using assms by (simp add: last_word_def wg' word_chain_eq_Nil split: list.splits)
  have fl: "final (last (word_chain ls)) = ?n"
    using assms by (simp add: last_word_chain)
  let ?g2 = "g'\<lparr>states := AList.update ?n ([] @ [FinalState ?n (FinalState_weight wt)]) (states g')\<rparr>"
  have af: "addFinalState g' ?n (FinalState_weight wt) = Inr ?g2"
    using sn by (rule addFinalState_result)
  have R: "addCorrectPaths ?g1 wt = Inr ?g2"
    by (simp add: addCorrectPaths_def w1 r lw fl af)
  have W: "words ?g2 = word_chain ls" using wg' by simp
  have I: "\<forall>k < ?n. state_items ?g2 k = Some [Arc k (Suc k) (ls ! k) (ls ! k) (Correct wt)]"
    using items by (simp add: state_items_update)
  have F: "state_items ?g2 ?n = Some [FinalState ?n (FinalState_weight wt)]"
    by (simp add: state_items_update)
  show ?thesis using R W I F by blast
qed

section \<open>The graphs built by the operations\<close>

lemma set_state_keys_update:
  "set (state_keys (g\<lparr>states := AList.update k v (states g)\<rparr>)) = insert k (set (state_keys g))"
  using dom_update[of k v "states g"] by (simp add: state_keys_def)

lemma state_keys_newState:
  "set (state_keys (fst (newState g))) = insert (Suc (state_counter g)) (set (state_keys g))"
  using dom_update[of "Suc (state_counter g)" "[]" "states g"]
  by (simp add: newState_def state_keys_def)

lemma chain_ok_init: "chain_ok (PromptLMFST_init h i)"
  by (simp add: chain_ok_def PromptLMFST_init_def state_keys_def)

lemma chain_ok_newState: "chain_ok g \<Longrightarrow> chain_ok (fst (newState g))"
  unfolding chain_ok_def state_keys_newState
  by (auto simp add: newState_def)

lemma chain_ok_same_frame: "chain_ok g \<Longrightarrow> same_frame g' g \<Longrightarrow> chain_ok g'"
  by (simp add: chain_ok_def same_frame_def)

lemma state_items_Some_iff_key:
  "(\<exists>its. state_items g k = Some its) \<longleftrightarrow> k \<in> set (state_keys g)"
  using map_of_eq_None_iff[of "states g" k] by (auto simp add: state_items_def state_keys_def)

lemma addArc_same_frame: "addArc g s t l ol w = Inr g' \<Longrightarrow> same_frame g' g"
proof -
  assume a: "addArc g s t l ol w = Inr g'"
  then obtain its where "state_items g s = Some its"
    by (cases "state_items g s") (simp_all add: addArc_missing)
  from addArc_effect[OF this, of t l ol w] a show ?thesis
    by (auto simp add: same_frame_def)
qed

lemma addFinalState_same_frame: "addFinalState g s w = Inr g' \<Longrightarrow> same_frame g' g"
  by (auto simp add: same_frame_def dest!: addFinalState_InrD simp add: state_keys_update_present)

lemma chain_ok_addNextWord:
  assumes "chain_ok g" and "addNextWord l g = Inr g'"
  shows "chain_ok g'"
proof (cases "initialised g")
  case False
  then have w: "words g = []" using assms(1) by (simp add: chain_ok_def)
  let ?c = "state_counter g"
  have g': "g' = g\<lparr>state_counter := Suc ?c,
                  states := AList.update (Suc ?c) [] (AList.update ?c [] (states g)),
                  words := [\<lparr>label = l, start = ?c, final = Suc ?c\<rparr>], initialised := True\<rparr>"
    using assms(2) False w by (auto simp add: addNextWord_def newState_def)
  have k: "set (state_keys g') = insert (Suc ?c) (insert ?c (set (state_keys g)))"
    unfolding g' state_keys_def by (auto simp add: dom_update)
  show ?thesis
    using assms(1) unfolding chain_ok_def k by (auto simp add: g')
next
  case True
  then have ne: "words g \<noteq> []" using assms(1) by (simp add: chain_ok_def)
  let ?c = "state_counter g"
  let ?lw = "last (words g)"
  have cw: "curr_word g = Inr ?lw"
    using True ne by (simp add: curr_word_def split: list.splits)
  have g': "g' = g\<lparr>state_counter := Suc ?c, states := AList.update (Suc ?c) [] (states g),
                  words := words g @ [\<lparr>label = l, start = final ?lw, final = Suc ?c\<rparr>]\<rparr>"
    using assms(2) True cw by (auto simp add: addNextWord_def newState_def)
  have k: "set (state_keys g') = insert (Suc ?c) (set (state_keys g))"
    unfolding g' state_keys_def by (simp add: dom_update)
  have lwin: "?lw \<in> set (words g)" using ne by simp
  have b: "\<forall>w \<in> set (words g). start w \<le> ?c \<and> final w \<le> ?c"
    using assms(1) by (auto simp add: chain_ok_def)
  have nf: "final ?lw \<notin> start ` set (words g)" using assms(1) ne by (simp add: chain_ok_def)
  have "Suc ?c \<notin> final ` set (words g)" using b by force
  moreover have "Suc ?c \<notin> start ` set (words g)" using b by force
  moreover have "final ?lw \<noteq> Suc ?c" using b lwin by force
  ultimately show ?thesis
    using assms(1) nf lwin True unfolding chain_ok_def k
    by (auto simp add: g')
qed

lemma built_chain_ok: "built ls g \<Longrightarrow> chain_ok g"
proof (induction rule: built.induct)
  case (built_init h i)
  show ?case by (rule chain_ok_init)
next
  case (built_addNextWord ls g l g')
  then show ?case using chain_ok_addNextWord by blast
next
  case (built_newState ls g)
  then show ?case by (simp add: chain_ok_newState)
next
  case (built_addArc ls g s t il ol w g')
  then show ?case using chain_ok_same_frame addArc_same_frame by blast
next
  case (built_addFinalState ls g s w g')
  then show ?case using chain_ok_same_frame addFinalState_same_frame by blast
qed

lemma for_each_filter:
  "for_each (\<lambda>x s. if P x then body x s else Inr s) xs s = for_each body (filter P xs) s"
  by (induction xs arbitrary: s) (auto split: sum.splits)

lemma map_fst_zip_tl: "map fst (zip ws (tl ws)) = butlast ws"
  by (cases ws) (simp_all add: map_fst_zip_take butlast_conv_take min_def)

lemma map_snd_zip_tl: "map snd (zip ws (tl ws)) = tl ws"
  by (simp add: map_snd_zip_take min_def)

lemma zip_tl_fst_butlast: "p \<in> set (zip ws (tl ws)) \<Longrightarrow> fst p \<in> set (butlast ws)"
  using map_fst_zip_tl[of ws] by (metis image_eqI set_map)

lemma zip_tl_snd_unique:
  assumes "distinct ws" and "(w, n) \<in> set (zip ws (tl ws))" and "(w, n') \<in> set (zip ws (tl ws))"
  shows "n = n'"
proof -
  from assms(2) have "\<exists>i. i < length ws \<and> ws ! i = w \<and> tl ws ! i = n"
    unfolding in_set_zip by auto
  then obtain i where i: "i < length ws" "ws ! i = w" "tl ws ! i = n" by blast
  from assms(3) have "\<exists>j. j < length ws \<and> ws ! j = w \<and> tl ws ! j = n'"
    unfolding in_set_zip by auto
  then obtain j where j: "j < length ws" "ws ! j = w" "tl ws ! j = n'" by blast
  have "i = j" using assms(1) i(1,2) j(1,2) by (metis nth_eq_iff_index_eq)
  then show ?thesis using i(3) j(3) by simp
qed

lemma last_notin_butlast: "distinct xs \<Longrightarrow> xs \<noteq> [] \<Longrightarrow> last xs \<notin> set (butlast xs)"
  by (metis append_butlast_last_id distinct_butlast not_distinct_conv_prefix)

lemma repeat_step_if:
  "repeat_step wt = (\<lambda>p g. if label (fst p) \<noteq> label (snd p)
       then addArc g (final (fst p)) (final (fst p)) (label (fst p)) (label (fst p)) (Repeat wt)
       else Inr g)"
  by (auto simp add: repeat_step_def fun_eq_iff)

lemma built_invariant:
  "built ls g \<Longrightarrow> map label (words g) = ls \<and> initialised g = (ls \<noteq> [])"
proof (induction rule: built.induct)
  case (built_init h i)
  then show ?case by (simp add: PromptLMFST_init_def)
next
  case (built_addNextWord ls g l g')
  then show ?case
    by (auto simp add: addNextWord_def newState_def Let_def curr_word_def
        split: if_splits sum.splits list.splits)
next
  case (built_newState ls g)
  then show ?case by (simp add: newState_def Let_def)
next
  case (built_addArc ls g s t il ol w g')
  then show ?case
    by (auto simp add: addArc_def homophoneArcExists_def
        split: option.splits if_splits sum.splits bool.splits)
next
  case (built_addFinalState ls g s w g')
  then show ?case by (auto simp add: addFinalState_def split: option.splits)
qed

text \<open>
  addNextWord on any built graph: it succeeds, the new word starts at the final
  state of the last word (at the counter's value when there is no word yet) and ends
  at a state number that is no key before the call and has an empty list after it.
  So in every built graph each word starts where the word before it ends.
\<close>

lemma addNextWord_on_built:
  assumes "built ls g"
  shows "\<exists>g' w. addNextWord l g = Inr g' \<and> words g' = words g @ [w] \<and> label w = l
     \<and> start w = (if ls = [] then state_counter g else final (last (words g)))
     \<and> final w = Suc (state_counter g)
     \<and> final w \<notin> set (state_keys g)
     \<and> state_items g' (final w) = Some []
     \<and> state_counter g' = Suc (state_counter g)"
proof -
  have ok: "chain_ok g" using assms by (rule built_chain_ok)
  have inv: "map label (words g) = ls" "initialised g = (ls \<noteq> [])"
    using built_invariant[OF assms] by simp_all
  have fresh: "Suc (state_counter g) \<notin> set (state_keys g)"
    using ok by (force simp add: chain_ok_def)
  show ?thesis
  proof (cases "ls = []")
    case True
    then have ni: "\<not> initialised g" using inv by simp
    let ?w = "\<lparr>label = l, start = state_counter g, final = Suc (state_counter g)\<rparr>"
    let ?g' = "g\<lparr>state_counter := Suc (state_counter g),
        states := AList.update (Suc (state_counter g)) []
          (AList.update (state_counter g) [] (states g)),
        words := words g @ [?w], initialised := True\<rparr>"
    have "addNextWord l g = Inr ?g'"
      using ni by (simp add: addNextWord_def newState_def)
    moreover have "state_items ?g' (Suc (state_counter g)) = Some []"
      by (simp add: state_items_def update_conv')
    ultimately show ?thesis using True fresh
      by (intro exI[of _ ?g'] exI[of _ ?w]) simp
  next
    case False
    then have i: "initialised g" and ne: "words g \<noteq> []" using inv by auto
    have cw: "curr_word g = Inr (last (words g))"
      using i ne by (simp add: curr_word_def split: list.splits)
    let ?w = "\<lparr>label = l, start = final (last (words g)), final = Suc (state_counter g)\<rparr>"
    let ?g' = "g\<lparr>state_counter := Suc (state_counter g),
        states := AList.update (Suc (state_counter g)) [] (states g),
        words := words g @ [?w]\<rparr>"
    have "addNextWord l g = Inr ?g'"
      using i cw by (simp add: addNextWord_def newState_def)
    moreover have "state_items ?g' (Suc (state_counter g)) = Some []"
      by (simp add: state_items_def update_conv')
    ultimately show ?thesis using False fresh
      by (intro exI[of _ ?g'] exI[of _ ?w]) simp
  qed
qed

lemma built_chain_continuity:
  "built ls g \<Longrightarrow> Suc k < length (words g) \<Longrightarrow>
     start (words g ! Suc k) = final (words g ! k)"
proof (induction arbitrary: k rule: built.induct)
  case (built_init h i)
  then show ?case by (simp add: PromptLMFST_init_def)
next
  case (built_addNextWord ls g l g')
  from addNextWord_on_built[OF built_addNextWord.hyps(1), of l] built_addNextWord.hyps(2)
  obtain w where w: "words g' = words g @ [w]"
    and s: "start w = (if ls = [] then state_counter g else final (last (words g)))"
    by auto
  have len: "length (words g) = length ls"
    using built_invariant[OF built_addNextWord.hyps(1)] by (metis length_map)
  show ?case
  proof (cases "Suc k < length (words g)")
    case True
    then show ?thesis using built_addNextWord.IH[of k] w by (simp add: nth_append)
  next
    case False
    then have e: "Suc k = length (words g)" using built_addNextWord.prems w by simp
    then have ne: "ls \<noteq> []" "words g \<noteq> []" using len by auto
    have "words g' ! Suc k = w" using w e by simp
    moreover have "k = length (words g) - 1" using e by simp
    then have "words g' ! k = last (words g)"
      using w e ne by (simp add: nth_append last_conv_nth)
    ultimately show ?thesis using s ne by simp
  qed
next
  case (built_newState ls g)
  then show ?case by (simp add: newState_def)
next
  case (built_addArc ls g s t il ol w g')
  then show ?case using addArc_same_frame[OF built_addArc.hyps(2)] by (simp add: same_frame_def)
next
  case (built_addFinalState ls g s w g')
  then show ?case using addFinalState_same_frame[OF built_addFinalState.hyps(2)]
    by (simp add: same_frame_def)
qed

section \<open>The skip loop\<close>

lemma state_keys_newState_list:
  assumes "\<forall>k \<in> set (state_keys g). k \<le> state_counter g"
  shows "state_keys (fst (newState g)) = state_keys g @ [Suc (state_counter g)]"
proof -
  have "Suc (state_counter g) \<notin> set (state_keys g)" using assms by force
  then show ?thesis
    by (simp add: newState_def state_keys_def update_keys)
qed

lemma state_items_newState:
  "state_items (fst (newState g)) s =
     (if s = Suc (state_counter g) then Some [] else state_items g s)"
  by (simp add: newState_def state_items_def update_conv')

lemma newState_fields:
  "snd (newState g) = Suc (state_counter g)
   \<and> state_counter (fst (newState g)) = Suc (state_counter g)
   \<and> words (fst (newState g)) = words g \<and> homophones (fst (newState g)) = homophones g
   \<and> initialised (fst (newState g)) = initialised g \<and> ID (fst (newState g)) = ID g"
  by (simp add: newState_def)

lemma skip_step_effect:
  assumes "\<forall>k \<in> set (state_keys g). k \<le> state_counter g"
    and "state_items g (start w) = Some its"
    and "label w \<noteq> label n"
  shows "\<exists>g'. skip_step wt (w, n) g = Inr g'
     \<and> state_counter g' = Suc (state_counter g)
     \<and> state_keys g' = state_keys g @ [Suc (state_counter g)]
     \<and> words g' = words g \<and> homophones g' = homophones g
     \<and> initialised g' = initialised g \<and> ID g' = ID g
     \<and> state_items g' (Suc (state_counter g)) =
         Some [Arc (Suc (state_counter g)) (final n) special_Epsilon (label n) (Correct wt)]
     \<and> state_items g' (start w) =
         Some (its @ (if homophoneArcExists g (start w) (label n) = Inr True then []
                      else [Arc (start w) (Suc (state_counter g)) (label n) special_Skip
                              (Skip wt)]))
     \<and> (\<forall>s. s \<noteq> start w \<longrightarrow> s \<noteq> Suc (state_counter g) \<longrightarrow>
           state_items g' s = state_items g s)"
proof -
  let ?c = "state_counter g"
  let ?k = "Suc ?c"
  let ?g1 = "fst (newState g)"
  have sk: "start w \<in> set (state_keys g)"
    using assms(2) state_items_Some_iff_key by blast
  then have ne: "start w \<noteq> ?k" using assms(1) by force
  have sn: "snd (newState g) = ?k" using newState_fields[of g] by simp
  have k1: "state_keys ?g1 = state_keys g @ [?k]"
    using assms(1) by (rule state_keys_newState_list)
  have s1: "state_items ?g1 (start w) = Some its"
    using assms(2) ne by (simp add: state_items_newState)
  have h1: "homophones ?g1 = homophones g" using newState_fields[of g] by simp
  have gd: "homophoneArcExists ?g1 (start w) (label n) = homophoneArcExists g (start w) (label n)"
    by (rule homophoneArcExists_cong) (simp_all add: s1 assms(2) h1)
  from addArc_effect[OF s1, of ?k "label n" special_Skip "Skip wt"]
  obtain g2 where
    a2: "addArc ?g1 (start w) ?k (label n) special_Skip (Skip wt) = Inr g2"
    and i2: "state_items g2 (start w) =
         Some (its @ (if homophoneArcExists ?g1 (start w) (label n) = Inr True then []
                      else [Arc (start w) ?k (label n) special_Skip (Skip wt)]))"
    and o2: "\<forall>s. s \<noteq> start w \<longrightarrow> state_items g2 s = state_items ?g1 s"
    and f2: "state_keys g2 = state_keys ?g1 \<and> words g2 = words ?g1
     \<and> state_counter g2 = state_counter ?g1 \<and> initialised g2 = initialised ?g1
     \<and> homophones g2 = homophones ?g1 \<and> ID g2 = ID ?g1"
    by blast
  have sk2: "state_items g2 ?k = Some []"
    using o2 ne by (simp add: state_items_newState)
  have gk: "homophoneArcExists g2 ?k special_Epsilon = Inr False"
    using homophoneArcExists_result[OF sk2] by simp
  from addArc_effect[OF sk2, of "final n" special_Epsilon "label n" "Correct wt"]
  obtain g3 where
    a3: "addArc g2 ?k (final n) special_Epsilon (label n) (Correct wt) = Inr g3"
    and i3: "state_items g3 ?k =
         Some ([] @ (if homophoneArcExists g2 ?k special_Epsilon = Inr True then []
                      else [Arc ?k (final n) special_Epsilon (label n) (Correct wt)]))"
    and o3: "\<forall>s. s \<noteq> ?k \<longrightarrow> state_items g3 s = state_items g2 s"
    and f3: "state_keys g3 = state_keys g2 \<and> words g3 = words g2
     \<and> state_counter g3 = state_counter g2 \<and> initialised g3 = initialised g2
     \<and> homophones g3 = homophones g2 \<and> ID g3 = ID g2"
    by blast
  have R: "skip_step wt (w, n) g = Inr g3"
    using assms(3) by (simp add: skip_step_def case_prod_beta sn a2 a3)
  have I3: "state_items g3 ?k = Some [Arc ?k (final n) special_Epsilon (label n) (Correct wt)]"
    using i3 gk by simp
  have Iw: "state_items g3 (start w) =
         Some (its @ (if homophoneArcExists g (start w) (label n) = Inr True then []
                      else [Arc (start w) ?k (label n) special_Skip (Skip wt)]))"
    using o3 ne i2 gd by simp
  have O: "\<forall>s. s \<noteq> start w \<longrightarrow> s \<noteq> ?k \<longrightarrow> state_items g3 s = state_items g s"
    using o3 o2 by (simp add: state_items_newState)
  have F: "state_counter g3 = ?k \<and> state_keys g3 = state_keys g @ [?k]
     \<and> words g3 = words g \<and> homophones g3 = homophones g
     \<and> initialised g3 = initialised g \<and> ID g3 = ID g"
    using f3 f2 k1 newState_fields[of g] by simp
  show ?thesis using R F I3 Iw O by blast
qed

lemma skip_loop:
  assumes "\<forall>k \<in> set (state_keys g). k \<le> state_counter g"
    and "distinct (map (\<lambda>p. start (fst p)) xs)"
    and "\<forall>p \<in> set xs. start (fst p) \<in> set (state_keys g)"
    and "\<forall>p \<in> set xs. label (fst p) \<noteq> label (snd p)"
  shows "\<exists>g'. for_each (skip_step wt) xs g = Inr g'
     \<and> state_counter g' = state_counter g + length xs
     \<and> state_keys g' =
         state_keys g @ [Suc (state_counter g)..<Suc (state_counter g + length xs)]
     \<and> words g' = words g \<and> homophones g' = homophones g
     \<and> initialised g' = initialised g \<and> ID g' = ID g
     \<and> (\<forall>j < length xs.
           state_items g' (Suc (state_counter g + j)) =
             Some [Arc (Suc (state_counter g + j)) (final (snd (xs ! j))) special_Epsilon
                     (label (snd (xs ! j))) (Correct wt)]
         \<and> (\<forall>its. state_items g (start (fst (xs ! j))) = Some its \<longrightarrow>
               state_items g' (start (fst (xs ! j))) =
                 Some (its @
                   (if homophoneArcExists g (start (fst (xs ! j))) (label (snd (xs ! j)))
                         = Inr True
                    then []
                    else [Arc (start (fst (xs ! j))) (Suc (state_counter g + j))
                            (label (snd (xs ! j))) special_Skip (Skip wt)]))))
     \<and> (\<forall>s. s \<notin> (\<lambda>p. start (fst p)) ` set xs \<longrightarrow>
           (s \<le> state_counter g \<or> state_counter g + length xs < s) \<longrightarrow>
           state_items g' s = state_items g s)"
  using assms
proof (induction xs arbitrary: g)
  case Nil
  then show ?case by simp
next
  case (Cons p xs)
  let ?c = "state_counter g"
  let ?st = "\<lambda>p. start (fst p)"
  obtain w n where p: "p = (w, n)" by (cases p)
  have bnd: "\<forall>k \<in> set (state_keys g). k \<le> ?c" using Cons.prems(1) .
  have wk: "start w \<in> set (state_keys g)" using Cons.prems(3) p by simp
  then obtain its where its: "state_items g (start w) = Some its"
    using state_items_Some_iff_key by blast
  have lab: "label w \<noteq> label n" using Cons.prems(4) p by simp
  from skip_step_effect[OF bnd its lab, of wt]
  obtain g1 where
    r1: "skip_step wt (w, n) g = Inr g1"
    and c1: "state_counter g1 = Suc ?c"
    and k1: "state_keys g1 = state_keys g @ [Suc ?c]"
    and f1: "words g1 = words g \<and> homophones g1 = homophones g
       \<and> initialised g1 = initialised g \<and> ID g1 = ID g"
    and n1: "state_items g1 (Suc ?c) =
         Some [Arc (Suc ?c) (final n) special_Epsilon (label n) (Correct wt)]"
    and w1: "state_items g1 (start w) =
         Some (its @ (if homophoneArcExists g (start w) (label n) = Inr True then []
                      else [Arc (start w) (Suc ?c) (label n) special_Skip (Skip wt)]))"
    and o1: "\<forall>s. s \<noteq> start w \<longrightarrow> s \<noteq> Suc ?c \<longrightarrow> state_items g1 s = state_items g s"
    by blast
  have P1: "\<forall>k \<in> set (state_keys g1). k \<le> state_counter g1"
    using bnd by (auto simp add: k1 c1)
  have P2: "distinct (map ?st xs)" using Cons.prems(2) by simp
  have P3: "\<forall>q \<in> set xs. start (fst q) \<in> set (state_keys g1)"
    using Cons.prems(3) by (simp add: k1)
  have P4: "\<forall>q \<in> set xs. label (fst q) \<noteq> label (snd q)" using Cons.prems(4) by simp
  from Cons.IH[OF P1 P2 P3 P4]
  obtain g' where
    r: "for_each (skip_step wt) xs g1 = Inr g'"
    and c': "state_counter g' = state_counter g1 + length xs"
    and k': "state_keys g' =
         state_keys g1 @ [Suc (state_counter g1)..<Suc (state_counter g1 + length xs)]"
    and f': "words g' = words g1 \<and> homophones g' = homophones g1
       \<and> initialised g' = initialised g1 \<and> ID g' = ID g1"
    and j': "\<forall>j < length xs.
           state_items g' (Suc (state_counter g1 + j)) =
             Some [Arc (Suc (state_counter g1 + j)) (final (snd (xs ! j))) special_Epsilon
                     (label (snd (xs ! j))) (Correct wt)]
         \<and> (\<forall>its. state_items g1 (start (fst (xs ! j))) = Some its \<longrightarrow>
               state_items g' (start (fst (xs ! j))) =
                 Some (its @
                   (if homophoneArcExists g1 (start (fst (xs ! j))) (label (snd (xs ! j)))
                         = Inr True
                    then []
                    else [Arc (start (fst (xs ! j))) (Suc (state_counter g1 + j))
                            (label (snd (xs ! j))) special_Skip (Skip wt)])))"
    and o': "\<forall>s. s \<notin> ?st ` set xs \<longrightarrow>
           (s \<le> state_counter g1 \<or> state_counter g1 + length xs < s) \<longrightarrow>
           state_items g' s = state_items g1 s"
    by blast
  have stle: "\<forall>q \<in> set xs. start (fst q) \<le> ?c" using Cons.prems(3) bnd by simp
  have wle: "start w \<le> ?c" using wk bnd by simp
  have wnot: "start w \<notin> ?st ` set xs" using Cons.prems(2) p by simp
  have knot: "Suc ?c \<notin> ?st ` set xs" using stle by force
  have R: "for_each (skip_step wt) (p # xs) g = Inr g'" using r1 r p by simp
  have C: "state_counter g' = ?c + length (p # xs)" using c' c1 by simp
  have K: "state_keys g' = state_keys g @ [Suc ?c..<Suc (?c + length (p # xs))]"
    using k' k1 c1 by (simp add: upt_conv_Cons del: upt_Suc)
  have F: "words g' = words g \<and> homophones g' = homophones g
       \<and> initialised g' = initialised g \<and> ID g' = ID g"
    using f' f1 by simp
  have J: "\<forall>j < length (p # xs).
           state_items g' (Suc (?c + j)) =
             Some [Arc (Suc (?c + j)) (final (snd ((p # xs) ! j))) special_Epsilon
                     (label (snd ((p # xs) ! j))) (Correct wt)]
         \<and> (\<forall>its. state_items g (start (fst ((p # xs) ! j))) = Some its \<longrightarrow>
               state_items g' (start (fst ((p # xs) ! j))) =
                 Some (its @
                   (if homophoneArcExists g (start (fst ((p # xs) ! j)))
                         (label (snd ((p # xs) ! j))) = Inr True
                    then []
                    else [Arc (start (fst ((p # xs) ! j))) (Suc (?c + j))
                            (label (snd ((p # xs) ! j))) special_Skip (Skip wt)])))"
  proof (intro allI impI)
    fix j assume jl: "j < length (p # xs)"
    show "state_items g' (Suc (?c + j)) =
             Some [Arc (Suc (?c + j)) (final (snd ((p # xs) ! j))) special_Epsilon
                     (label (snd ((p # xs) ! j))) (Correct wt)]
         \<and> (\<forall>its. state_items g (start (fst ((p # xs) ! j))) = Some its \<longrightarrow>
               state_items g' (start (fst ((p # xs) ! j))) =
                 Some (its @
                   (if homophoneArcExists g (start (fst ((p # xs) ! j)))
                         (label (snd ((p # xs) ! j))) = Inr True
                    then []
                    else [Arc (start (fst ((p # xs) ! j))) (Suc (?c + j))
                            (label (snd ((p # xs) ! j))) special_Skip (Skip wt)])))"
    proof (cases j)
      case 0
      have a: "state_items g' (Suc ?c) = state_items g1 (Suc ?c)"
        using o' knot c1 by simp
      have b: "state_items g' (start w) = state_items g1 (start w)"
        using o' wnot wle c1 by simp
      show ?thesis using 0 p a b n1 w1 its by simp
    next
      case (Suc i)
      then have il: "i < length xs" using jl by simp
      let ?q = "xs ! i"
      have qin: "?q \<in> set xs" using il by simp
      have qne: "start (fst ?q) \<noteq> start w" using wnot qin by force
      have qnk: "start (fst ?q) \<noteq> Suc ?c" using stle qin by force
      have s1: "state_items g1 (start (fst ?q)) = state_items g (start (fst ?q))"
        using o1 qne qnk by simp
      have gd: "homophoneArcExists g1 (start (fst ?q)) (label (snd ?q))
          = homophoneArcExists g (start (fst ?q)) (label (snd ?q))"
        by (rule homophoneArcExists_cong) (simp_all add: s1 f1)
      from j' il have
        x: "state_items g' (Suc (state_counter g1 + i)) =
             Some [Arc (Suc (state_counter g1 + i)) (final (snd ?q)) special_Epsilon
                     (label (snd ?q)) (Correct wt)]"
        and y: "\<forall>its. state_items g1 (start (fst ?q)) = Some its \<longrightarrow>
               state_items g' (start (fst ?q)) =
                 Some (its @
                   (if homophoneArcExists g1 (start (fst ?q)) (label (snd ?q)) = Inr True
                    then []
                    else [Arc (start (fst ?q)) (Suc (state_counter g1 + i))
                            (label (snd ?q)) special_Skip (Skip wt)]))"
        by blast+
      show ?thesis using Suc x y s1 gd c1 by simp
    qed
  qed
  have O: "\<forall>s. s \<notin> ?st ` set (p # xs) \<longrightarrow>
           (s \<le> ?c \<or> ?c + length (p # xs) < s) \<longrightarrow>
           state_items g' s = state_items g s"
  proof (intro allI impI)
    fix s assume a: "s \<notin> ?st ` set (p # xs)" and b: "s \<le> ?c \<or> ?c + length (p # xs) < s"
    have "s \<notin> ?st ` set xs" using a by simp
    moreover have "s \<le> state_counter g1 \<or> state_counter g1 + length xs < s"
      using b c1 by auto
    ultimately have "state_items g' s = state_items g1 s" using o' by blast
    moreover have "s \<noteq> start w" using a p by simp
    moreover have "s \<noteq> Suc ?c" using b by auto
    ultimately show "state_items g' s = state_items g s" using o1 by simp
  qed
  show ?case using R C K F J O by blast
qed

lemma for_each_skip_unchanged:
  "(\<forall>x \<in> set xs. \<not> P x \<longrightarrow> (\<forall>s. body x s = Inr s)) \<Longrightarrow>
     for_each body xs s = for_each body (filter P xs) s"
  by (induction xs arbitrary: s) (auto split: sum.splits)

lemma skip_step_equal_labels:
  "label (fst p) = label (snd p) \<Longrightarrow> skip_step wt p g = Inr g"
  by (simp add: skip_step_def case_prod_beta)

lemma differing_pairs_filter:
  "differing_pairs ws = filter (\<lambda>p. label (fst p) \<noteq> label (snd p)) (zip ws (tl ws))"
  unfolding differing_pairs_def by (rule filter_cong) (simp_all add: case_prod_beta)

section \<open>The recipes keep a graph among the built ones\<close>

lemma built_for_each:
  assumes "\<And>x g g'. built ls g \<Longrightarrow> body x g = Inr g' \<Longrightarrow> built ls g'"
  shows "built ls g \<Longrightarrow> for_each body xs g = Inr g' \<Longrightarrow> built ls g'"
proof (induction xs arbitrary: g)
  case Nil
  then show ?case by simp
next
  case (Cons x xs)
  from Cons.prems(2) obtain g1 where b: "body x g = Inr g1" and r: "for_each body xs g1 = Inr g'"
    by (auto split: sum.splits)
  have "built ls g1" using assms Cons.prems(1) b by blast
  then show ?case using Cons.IH r by blast
qed

lemma built_addWordSequence:
  "built ls g \<Longrightarrow> addWordSequence ls' g = Inr g' \<Longrightarrow> built (ls @ ls') g'"
  unfolding addWordSequence_def
proof (induction ls' arbitrary: ls g)
  case Nil
  then show ?case by simp
next
  case (Cons l ls')
  from Cons.prems(2) obtain g1 where a: "addNextWord l g = Inr g1"
    and r: "for_each addNextWord ls' g1 = Inr g'"
    by (auto split: sum.splits)
  have "built (ls @ [l]) g1" using Cons.prems(1) a by (rule built_addNextWord)
  then have "built ((ls @ [l]) @ ls') g'" using r by (rule Cons.IH)
  then show ?case by simp
qed

lemma built_addCorrectPaths:
  assumes "built ls g" and "addCorrectPaths g wt = Inr g'"
  shows "built ls g'"
proof -
  from assms(2) have "\<exists>g1 (lw::Word). for_each (\<lambda>word g. addArc g (start word) (final word) (label word) (label word)
          (Correct wt)) (words g) g = Inr g1
      \<and> last_word g1 = Inr lw
      \<and> addFinalState g1 (final lw) (FinalState_weight wt) = Inr g'"
    by (auto simp add: addCorrectPaths_def split: sum.splits)
  then obtain g1 and lw :: Word where
    l: "for_each (\<lambda>word g. addArc g (start word) (final word) (label word) (label word)
          (Correct wt)) (words g) g = Inr g1"
    and f: "addFinalState g1 (final lw) (FinalState_weight wt) = Inr g'"
    by blast
  have "built ls g1"
    by (rule built_for_each[OF _ assms(1) l]) (rule built_addArc)
  then show ?thesis using f by (rule built_addFinalState)
qed

lemma built_addRubbishPaths:
  assumes "built ls g" and "addRubbishPaths g wt = Inr g'"
  shows "built ls g'"
proof -
  from assms(2) have "\<exists>g1 (lw::Word). for_each (\<lambda>word g. addArc g (start word) (start word) special_Rubbish special_Rubbish
          (Rubbish wt)) (words g) g = Inr g1
      \<and> last_word g1 = Inr lw
      \<and> addArc g1 (final lw) (final lw) special_Rubbish special_Rubbish (Rubbish wt) = Inr g'"
    by (auto simp add: addRubbishPaths_def split: sum.splits)
  then obtain g1 and lw :: Word where
    l: "for_each (\<lambda>word g. addArc g (start word) (start word) special_Rubbish special_Rubbish
          (Rubbish wt)) (words g) g = Inr g1"
    and f: "addArc g1 (final lw) (final lw) special_Rubbish special_Rubbish (Rubbish wt) = Inr g'"
    by blast
  have "built ls g1"
    by (rule built_for_each[OF _ assms(1) l]) (rule built_addArc)
  then show ?thesis using f by (rule built_addArc)
qed

lemma built_skip_step:
  assumes "built ls g" and "skip_step wt p g = Inr g'"
  shows "built ls g'"
proof (cases "label (fst p) = label (snd p)")
  case True
  then show ?thesis using assms by (simp add: skip_step_equal_labels)
next
  case False
  let ?g1 = "fst (newState g)"
  from assms(2) False obtain g2 where
    a: "addArc ?g1 (start (fst p)) (snd (newState g)) (label (snd p)) special_Skip (Skip wt) = Inr g2"
    and b: "addArc g2 (snd (newState g)) (final (snd p)) special_Epsilon (label (snd p)) (Correct wt) = Inr g'"
    by (auto simp add: skip_step_def case_prod_beta split: sum.splits)
  have "built ls ?g1" using assms(1) by (rule built_newState)
  then have "built ls g2" using a by (rule built_addArc)
  then show ?thesis using b by (rule built_addArc)
qed

lemma built_addSkipPaths:
  assumes "built ls g" and "addSkipPaths g wt = Inr g'"
  shows "built ls g'"
proof -
  from assms(2) have "\<exists>g1 (lw::Word). for_each (skip_step wt) (zip (words g) (tl (words g))) g = Inr g1
      \<and> last_word g1 = Inr lw
      \<and> addArc g1 (start lw) (final lw) special_Epsilon special_Skip (Skip wt) = Inr g'"
    by (auto simp add: addSkipPaths_def split: sum.splits)
  then obtain g1 and lw :: Word where
    l: "for_each (skip_step wt) (zip (words g) (tl (words g))) g = Inr g1"
    and f: "addArc g1 (start lw) (final lw) special_Epsilon special_Skip (Skip wt) = Inr g'"
    by blast
  have "built ls g1"
    by (rule built_for_each[OF _ assms(1) l]) (rule built_skip_step)
  then show ?thesis using f by (rule built_addArc)
qed

lemma built_repeat_step:
  assumes "built ls g" and "repeat_step wt p g = Inr g'"
  shows "built ls g'"
  using assms by (auto simp add: repeat_step_if intro: built_addArc split: if_splits)

lemma built_addRepeatPaths:
  assumes "built ls g" and "addRepeatPaths g wt = Inr g'"
  shows "built ls g'"
proof -
  from assms(2) have "\<exists>g1 (lw::Word). for_each (repeat_step wt) (zip (words g) (tl (words g))) g = Inr g1
      \<and> last_word g1 = Inr lw
      \<and> addArc g1 (final lw) (final lw) (label lw) (label lw) (Repeat wt) = Inr g'"
    by (auto simp add: addRepeatPaths_def split: sum.splits)
  then obtain g1 and lw :: Word where
    l: "for_each (repeat_step wt) (zip (words g) (tl (words g))) g = Inr g1"
    and f: "addArc g1 (final lw) (final lw) (label lw) (label lw) (Repeat wt) = Inr g'"
    by blast
  have "built ls g1"
    by (rule built_for_each[OF _ assms(1) l]) (rule built_repeat_step)
  then show ?thesis using f by (rule built_addArc)
qed

section \<open>What the guard keeps\<close>

text \<open>
  In every graph built by the operations, no arc of a state has an input label that
  the index lists among the homophones of the input label of an earlier arc of that
  state. Labels outside every homophone group have an empty entry, so this says
  nothing about two arcs with the same such label.
\<close>

lemma homophone_free_Nil: "homophone_free h []"
  by (simp add: homophone_free_def)

lemma homophone_free_snoc:
  "homophone_free h (its @ [x]) \<longleftrightarrow>
     homophone_free h its
     \<and> (\<forall>lx. getattr_in_label x = Some lx \<longrightarrow>
           (\<forall>it \<in> set its. \<forall>li. getattr_in_label it = Some li \<longrightarrow> lx \<notin> h (Some li)))"
proof
  assume a: "homophone_free h (its @ [x])"
  have 1: "homophone_free h its"
    unfolding homophone_free_def
  proof (intro allI impI)
    fix j i li lj
    assume j: "j < length its" and i: "i < j"
      and e: "getattr_in_label (its ! i) = Some li \<and> getattr_in_label (its ! j) = Some lj"
    have "(its @ [x]) ! i = its ! i" "(its @ [x]) ! j = its ! j"
      using i j by (simp_all add: nth_append)
    then show "lj \<notin> h (Some li)"
      using a i j e unfolding homophone_free_def
      by (metis length_append_singleton less_Suc_eq)
  qed
  have 2: "\<forall>lx. getattr_in_label x = Some lx \<longrightarrow>
           (\<forall>it \<in> set its. \<forall>li. getattr_in_label it = Some li \<longrightarrow> lx \<notin> h (Some li))"
  proof (intro allI impI ballI)
    fix lx it li
    assume x: "getattr_in_label x = Some lx" and it: "it \<in> set its"
      and l: "getattr_in_label it = Some li"
    from it obtain i where i: "i < length its" "its ! i = it" by (auto simp add: in_set_conv_nth)
    have "(its @ [x]) ! i = it" "(its @ [x]) ! length its = x"
      using i by (simp_all add: nth_append)
    then show "lx \<notin> h (Some li)"
      using a i x l unfolding homophone_free_def
      by (metis length_append_singleton lessI)
  qed
  show "homophone_free h its
     \<and> (\<forall>lx. getattr_in_label x = Some lx \<longrightarrow>
           (\<forall>it \<in> set its. \<forall>li. getattr_in_label it = Some li \<longrightarrow> lx \<notin> h (Some li)))"
    using 1 2 by simp
next
  assume a: "homophone_free h its
     \<and> (\<forall>lx. getattr_in_label x = Some lx \<longrightarrow>
           (\<forall>it \<in> set its. \<forall>li. getattr_in_label it = Some li \<longrightarrow> lx \<notin> h (Some li)))"
  show "homophone_free h (its @ [x])"
    unfolding homophone_free_def
  proof (intro allI impI)
    fix j i li lj
    assume j: "j < length (its @ [x])" and i: "i < j"
      and e: "getattr_in_label ((its @ [x]) ! i) = Some li
          \<and> getattr_in_label ((its @ [x]) ! j) = Some lj"
    show "lj \<notin> h (Some li)"
    proof (cases "j < length its")
      case True
      then have "(its @ [x]) ! i = its ! i" "(its @ [x]) ! j = its ! j"
        using i by (simp_all add: nth_append)
      then show ?thesis using a True i e unfolding homophone_free_def by metis
    next
      case False
      then have jl: "j = length its" using j by simp
      then have "(its @ [x]) ! j = x" by simp
      moreover have "(its @ [x]) ! i = its ! i" "its ! i \<in> set its"
        using i jl by (simp_all add: nth_append)
      ultimately show ?thesis using a e by metis
    qed
  qed
qed

lemma guard_inv_update:
  assumes "guard_inv g" and "homophone_free (homophones g) v"
  shows "guard_inv (g\<lparr>states := AList.update k v (states g)\<rparr>)"
  using assms by (auto simp add: guard_inv_def state_items_update)

lemma guard_inv_newState: "guard_inv g \<Longrightarrow> guard_inv (fst (newState g))"
  by (auto simp add: guard_inv_def state_items_newState newState_fields homophone_free_Nil
      split: if_splits)

lemma guard_inv_addArc:
  assumes "guard_inv g" and "addArc g s t l ol w = Inr g'"
  shows "guard_inv g'"
proof -
  from assms(2) obtain its where its: "state_items g s = Some its"
    by (cases "state_items g s") (simp_all add: addArc_missing)
  let ?b = "\<exists>it \<in> set its. l \<in> homophones g (getattr_in_label it)"
  have r: "g' = (if ?b then g
      else g\<lparr>states := AList.update s (its @ [Arc s t l ol w]) (states g)\<rparr>)"
    using addArc_result[OF its, of t l ol w] assms(2) by simp
  show ?thesis
  proof (cases ?b)
    case True
    then show ?thesis using r assms(1) by simp
  next
    case False
    have "homophone_free (homophones g) its" using assms(1) its by (simp add: guard_inv_def)
    then have "homophone_free (homophones g) (its @ [Arc s t l ol w])"
      using False by (auto simp add: homophone_free_snoc)
    then show ?thesis using r False guard_inv_update[OF assms(1)] by simp
  qed
qed

lemma guard_inv_addFinalState:
  assumes "guard_inv g" and "addFinalState g s w = Inr g'"
  shows "guard_inv g'"
proof -
  from addFinalState_InrD[OF assms(2)] obtain its where its: "state_items g s = Some its"
    and g': "g' = g\<lparr>states := AList.update s (its @ [FinalState s w]) (states g)\<rparr>"
    by blast
  have "homophone_free (homophones g) its" using assms(1) its by (simp add: guard_inv_def)
  then have "homophone_free (homophones g) (its @ [FinalState s w])"
    by (simp add: homophone_free_snoc)
  then show ?thesis unfolding g' using assms(1) by (rule guard_inv_update[rotated])
qed

lemma guard_inv_addNextWord:
  assumes "guard_inv g" and "addNextWord l g = Inr g'"
  shows "guard_inv g'"
  using assms
  by (auto simp add: addNextWord_def newState_def guard_inv_def state_items_def update_conv'
      homophone_free_Nil Let_def split: if_splits sum.splits)

lemma built_guard_inv: "built ls g \<Longrightarrow> guard_inv g"
proof (induction rule: built.induct)
  case (built_init h i)
  show ?case by (simp add: guard_inv_def state_items_def PromptLMFST_init_def)
next
  case (built_addNextWord ls g l g')
  then show ?case using guard_inv_addNextWord by blast
next
  case (built_newState ls g)
  then show ?case by (simp add: guard_inv_newState)
next
  case (built_addArc ls g s t il ol w g')
  then show ?case using guard_inv_addArc by blast
next
  case (built_addFinalState ls g s w g')
  then show ?case using guard_inv_addFinalState by blast
qed

lemma built_no_later_homophone:
  assumes "built ls g" and "state_items g s = Some its" and "i < j" and "j < length its"
    and "its ! i = Arc f t li oi wi" and "its ! j = Arc f' t' lj oj wj"
  shows "lj \<notin> homophones g (Some li)"
  using built_guard_inv[OF assms(1)] assms(2-6)
  unfolding guard_inv_def homophone_free_def
  by (metis getattr_in_label.simps(1))

section \<open>The scan on graphs without final-state markers\<close>

text \<open>
  When no list holds a final-state marker, isDeterministic returns whether every
  state's list has pairwise different input labels.
\<close>

lemma isDeterministic_state_arcs:
  "\<forall>it \<in> set its. is_Arc it \<Longrightarrow>
     isDeterministic_state its seen =
       Inr (distinct (map getattr_in_label its) \<and> set (map getattr_in_label its) \<inter> seen = {})"
proof (induction its arbitrary: seen)
  case Nil
  then show ?case by simp
next
  case (Cons it its)
  then obtain f t l ol w where it: "it = Arc f t l ol w" by (cases it) auto
  have "\<forall>x \<in> set its. is_Arc x" using Cons.prems by simp
  then have IH: "isDeterministic_state its (insert (Some l) seen) =
       Inr (distinct (map getattr_in_label its)
            \<and> set (map getattr_in_label its) \<inter> insert (Some l) seen = {})"
    by (rule Cons.IH)
  show ?case using IH by (auto simp add: it)
qed

lemma isDeterministic_states_arcs:
  "\<forall>st \<in> set sts. \<forall>it \<in> set st. is_Arc it \<Longrightarrow>
     isDeterministic_states sts = Inr (\<forall>st \<in> set sts. distinct (map getattr_in_label st))"
proof (induction sts)
  case Nil
  then show ?case by simp
next
  case (Cons st sts)
  have a: "isDeterministic_state st {} = Inr (distinct (map getattr_in_label st))"
    using Cons.prems by (simp add: isDeterministic_state_arcs)
  have b: "isDeterministic_states sts = Inr (\<forall>st \<in> set sts. distinct (map getattr_in_label st))"
    using Cons by simp
  show ?case using a b by (cases "distinct (map getattr_in_label st)") simp_all
qed

lemma isDeterministic_without_markers:
  assumes "\<forall>st \<in> set (map snd (states g)). \<forall>it \<in> set st. is_Arc it"
  shows "isDeterministic g =
     Inr (\<forall>st \<in> set (map snd (states g)). distinct (map getattr_in_label st))"
  unfolding isDeterministic_def using assms by (rule isDeterministic_states_arcs)

section \<open>Determinism of the constructed graph\<close>

text \<open>
  C1. The claim: after the full construction, no state has two arcs whose input
  labels are equal or homophones of each other. For the prompt a b a and no
  homophone file the construction returns a graph whose state 1 (the final state of
  the first a and start state of b) has the skip arc to state 5 and the repeat loop,
  both with input label a; isDeterministic returns False on it.
\<close>

theorem full_construction_a_b_a_not_deterministic:
  "and_then (and_then (and_then (and_then
      (addWordSequence [''a'', ''b'', ''a''] (PromptLMFST_init (readHomophones None) None))
      (\<lambda>g. addCorrectPaths g weights))
      (\<lambda>g. addRubbishPaths g weights))
      (\<lambda>g. addSkipPaths g weights))
      (\<lambda>g. addRepeatPaths g weights) = Inr graph_a_b_a
   \<and> state_items graph_a_b_a 1 =
       Some [Arc 1 2 ''b'' ''b'' 100, Arc 1 1 ''[RUB]'' ''[RUB]'' 5,
             Arc 1 5 ''a'' ''[SKP]'' 10, Arc 1 1 ''a'' ''a'' 30]
   \<and> isDeterministic graph_a_b_a = Inr False"
  by (simp add: construction_defs graph_a_b_a_def isDeterministic_def)

section \<open>The emitted weights\<close>

text \<open>
  C2. The claim: the weights leaving a state are normalised to sum to 1 and each
  emitted cost is the negative natural logarithm of the normalised probability.
  addArc stores the weight it is given and inText prints the stored weight: for two
  arcs of weights 10 and 30 leaving state 0 the text holds str(10) and str(30),
  whatever str is, and these are not the costs -ln(10/40) and -ln(30/40). The
  FinalState weight is printed as it is stored, as the claim says.
\<close>

theorem inText_emits_stored_weights:
  "and_then (and_then (and_then
      (addWordSequence [''a''] (PromptLMFST_init (readHomophones None) (Some ''p1'')))
      (\<lambda>g. addArc g 0 1 ''a'' ''a'' 10))
      (\<lambda>g. addArc g 0 0 ''b'' ''b'' 30))
      (\<lambda>g. addFinalState g 1 0) = Inr graph_10_30
   \<and> inText str_int str_num graph_10_30 =
       ''p1'' @ [CHR 0x0A]
       @ str_int 0 @ '' '' @ str_int 1 @ '' a a '' @ str_num 10 @ [CHR 0x0A]
       @ str_int 0 @ '' '' @ str_int 0 @ '' b b '' @ str_num 30 @ [CHR 0x0A]
       @ str_int 1 @ '' '' @ str_num 0 @ [CHR 0x0A]
   \<and> (10::real) \<noteq> - ln (10 / (10 + 30)) \<and> (30::real) \<noteq> - ln (30 / (10 + 30))"
proof -
  have a: "ln (4::real) < 4" by (rule ln_less_self) simp
  have b: "ln (4/3::real) < 4/3" by (rule ln_less_self) simp
  have c: "- ln (10 / (10 + 30) :: real) = ln 4"
    using ln_inverse[of "4::real"] by simp
  have d: "- ln (30 / (10 + 30) :: real) = ln (4/3)"
    using ln_inverse[of "4/3::real"] by simp
  have e: "(10::real) \<noteq> ln 4" using a by linarith
  have f: "(30::real) \<noteq> ln (4/3)" using b by linarith
  have g: "and_then (and_then (and_then
      (addWordSequence [''a''] (PromptLMFST_init (readHomophones None) (Some ''p1'')))
      (\<lambda>g. addArc g 0 1 ''a'' ''a'' 10))
      (\<lambda>g. addArc g 0 0 ''b'' ''b'' 30))
      (\<lambda>g. addFinalState g 1 0) = Inr graph_10_30"
    by (simp add: construction_defs graph_10_30_def)
  have h: "inText str_int str_num graph_10_30 =
       ''p1'' @ [CHR 0x0A]
       @ str_int 0 @ '' '' @ str_int 1 @ '' a a '' @ str_num 10 @ [CHR 0x0A]
       @ str_int 0 @ '' '' @ str_int 0 @ '' b b '' @ str_num 30 @ [CHR 0x0A]
       @ str_int 1 @ '' '' @ str_num 0 @ [CHR 0x0A]"
    by (simp add: inText_def graph_10_30_def)
  show ?thesis using g h e f unfolding c d by blast
qed

section \<open>The diagnostic scan\<close>

text \<open>
  C4. The claim: isDeterministic returns a boolean on every constructed graph, also
  on one with final-state markers. On the graph of the prompt a after the correct
  paths, whose state 1 holds the FinalState marker, the scan reads item.in\_label of
  the marker and raises AttributeError.
\<close>

theorem isDeterministic_raises_on_final_state:
  "and_then (addWordSequence [''a''] (PromptLMFST_init (readHomophones None) None))
      (\<lambda>g. addCorrectPaths g weights) = Inr graph_a_correct
   \<and> isDeterministic graph_a_correct = Inl AttributeError"
  by (simp add: construction_defs graph_a_correct_def isDeterministic_def)

section \<open>The guard of addArc\<close>

text \<open>
  C3. The claim: addArc is a silent no-op when the state already has an arc whose
  input label is equal to the new one or a homophone of it, and appends the arc
  otherwise. The guard looks the new label up in the homophone sets of the labels in
  the state's list, and a label outside every homophone group has the empty set: with
  no homophone file, a second arc with the same input label a is appended to state 0.
\<close>

theorem addArc_equal_label_appended:
  "addArc graph_a_correct 0 1 ''a'' ''a'' 100 =
     Inr (graph_a_correct\<lparr>states :=
       [(0, [Arc 0 1 ''a'' ''a'' 100, Arc 0 1 ''a'' ''a'' 100]), (1, [FinalState 1 0])]\<rparr>)"
  by (simp add: construction_defs graph_a_correct_def)

text \<open>
  C3 as amended. On a state that exists, addArc changes nothing exactly when the new
  input label is in the homophone set of the input label of an item already in the
  state's list; for the index of a homophone file, exactly when some arc of the list
  has an input label that stands on one line of the file together with the new one
  (so an arc with the same input label stops the new one only if that label occurs
  in the file). Otherwise the arc is appended to the end of the state's list. No
  other state and no other part of the graph changes.
\<close>

theorem addArc_guarded_append:
  assumes "state_items g from_state = Some its"
  shows "\<exists>g'. addArc g from_state to_state l out_label w = Inr g'
     \<and> state_items g' from_state =
         Some (if homophoneArcExists g from_state l = Inr True then its
               else its @ [Arc from_state to_state l out_label w])
     \<and> (\<forall>s. s \<noteq> from_state \<longrightarrow> state_items g' s = state_items g s)
     \<and> state_keys g' = state_keys g \<and> words g' = words g
     \<and> state_counter g' = state_counter g \<and> initialised g' = initialised g
     \<and> homophones g' = homophones g \<and> ID g' = ID g
     \<and> (homophoneArcExists g from_state l = Inr True \<longleftrightarrow>
          (\<exists>it \<in> set its. l \<in> homophones g (getattr_in_label it)))
     \<and> (\<forall>lines_split. homophones g = readHomophones (Some lines_split) \<longrightarrow>
          (homophoneArcExists g from_state l = Inr True \<longleftrightarrow>
             (\<exists>f t l' ol' w'. Arc f t l' ol' w' \<in> set its
                \<and> (\<exists>line \<in> set lines_split. l \<in> set line \<and> l' \<in> set line))))"
proof -
  let ?b = "\<exists>it \<in> set its. l \<in> homophones g (getattr_in_label it)"
  let ?g' = "if ?b then g else g\<lparr>states := AList.update from_state
    (its @ [Arc from_state to_state l out_label w]) (states g)\<rparr>"
  have h: "homophoneArcExists g from_state l = Inr ?b"
    using assms by (rule homophoneArcExists_result)
  have r: "addArc g from_state to_state l out_label w = Inr ?g'"
    using assms by (rule addArc_result)
  have i1: "state_items ?g' from_state =
      Some (if ?b then its else its @ [Arc from_state to_state l out_label w])"
    using assms by (simp add: state_items_update)
  have i2: "\<forall>s. s \<noteq> from_state \<longrightarrow> state_items ?g' s = state_items g s"
    by (simp add: state_items_update)
  have k: "state_keys ?g' = state_keys g"
    using assms by (simp add: state_keys_update_present)
  have f: "words ?g' = words g \<and> state_counter ?g' = state_counter g
     \<and> initialised ?g' = initialised g \<and> homophones ?g' = homophones g \<and> ID ?g' = ID g"
    by simp
  have rd: "\<forall>lines_split. homophones g = readHomophones (Some lines_split) \<longrightarrow>
          (?b \<longleftrightarrow> (\<exists>f t l' ol' w'. Arc f t l' ol' w' \<in> set its
                \<and> (\<exists>line \<in> set lines_split. l \<in> set line \<and> l' \<in> set line)))"
  proof (intro allI impI)
    fix ls assume hg: "homophones g = readHomophones (Some ls)"
    have "?b \<longleftrightarrow> (\<exists>it \<in> set its. \<exists>l'. getattr_in_label it = Some l'
                   \<and> l \<in> readHomophones (Some ls) (Some l'))"
      unfolding hg by (metis readHomophones_None_key empty_iff option.exhaust)
    also have "\<dots> \<longleftrightarrow> (\<exists>f t l' ol' w'. Arc f t l' ol' w' \<in> set its
                \<and> (\<exists>line \<in> set ls. l \<in> set line \<and> l' \<in> set line))"
      unfolding readHomophones_same_line in_label_Some_iff by blast
    finally show "?b \<longleftrightarrow> (\<exists>f t l' ol' w'. Arc f t l' ol' w' \<in> set its
                \<and> (\<exists>line \<in> set ls. l \<in> set line \<and> l' \<in> set line))" .
  qed
  show ?thesis
    unfolding h using r i1 i2 k f rd by (intro exI[of _ ?g']) simp
qed

text \<open>
  With read and red on one line of the homophone file and an arc labelled read at
  state 0, adding an arc labelled red at state 0 leaves the graph as it is; an arc
  labelled blue is appended.
\<close>

theorem addArc_guarded_append_witness:
  "state_items graph_read 0 = Some [Arc 0 1 ''read'' ''read'' 100]
   \<and> homophones graph_read = readHomophones (Some [[''read'', ''red'']])
   \<and> homophoneArcExists graph_read 0 ''red'' = Inr True
   \<and> addArc graph_read 0 1 ''red'' ''red'' 100 = Inr graph_read
   \<and> homophoneArcExists graph_read 0 ''blue'' = Inr False
   \<and> (\<exists>g'. addArc graph_read 0 1 ''blue'' ''blue'' 100 = Inr g'
        \<and> state_items g' 0 =
            Some [Arc 0 1 ''read'' ''read'' 100, Arc 0 1 ''blue'' ''blue'' 100]
        \<and> state_items g' 1 = state_items graph_read 1)"
proof -
  have s: "state_items graph_read 0 = Some [Arc 0 1 ''read'' ''read'' 100]"
    by (simp add: graph_read_def state_items_def)
  have hr: "homophoneArcExists graph_read 0 ''red'' = Inr True"
    by (simp add: graph_read_def construction_defs)
  have hb: "homophoneArcExists graph_read 0 ''blue'' = Inr False"
    by (simp add: graph_read_def construction_defs)
  have ar: "addArc graph_read 0 1 ''red'' ''red'' 100 = Inr graph_read"
    by (simp add: graph_read_def construction_defs)
  have "\<exists>g'. addArc graph_read 0 1 ''blue'' ''blue'' 100 = Inr g'
        \<and> state_items g' 0 =
            Some [Arc 0 1 ''read'' ''read'' 100, Arc 0 1 ''blue'' ''blue'' 100]
        \<and> state_items g' 1 = state_items graph_read 1"
    using addArc_guarded_append [OF s, of 1 "''blue''" "''blue''" 100] hb by auto
  moreover have "homophones graph_read = readHomophones (Some [[''read'', ''red'']])"
    by (simp add: graph_read_def)
  ultimately show ?thesis using s hr hb ar by blast
qed

section \<open>Final-state markers and the guard\<close>

text \<open>
  C10. For a graph whose homophone index was built by readHomophones (from a file or
  from no file), marking a state s final leaves the guard's answer at s for every
  label as it was. So addArc at s after addFinalState inserts its arc exactly when
  addArc on the graph without the marker does, and the two orders of the two calls
  give state s the same arcs and the same marker (the marker before or after the new
  arc), and every other state the same list. More generally the guard at s answers
  the same on any two graphs with that index whose lists at s hold the same arcs in
  the same order, whatever markers stand between them.
\<close>

theorem addFinalState_never_blocks_addArc:
  assumes "homophones g = readHomophones src" and "addFinalState g s wm = Inr g1"
  shows "homophoneArcExists g1 s l = homophoneArcExists g s l
     \<and> (\<exists>g12 g2 g21 its1 its its12 its21.
          addArc g1 s t l ol w = Inr g12 \<and> addArc g s t l ol w = Inr g2
          \<and> addFinalState g2 s wm = Inr g21
          \<and> state_items g s = Some its \<and> state_items g1 s = Some its1
          \<and> state_items g12 s = Some its12 \<and> state_items g21 s = Some its21
          \<and> (its12 = its1 \<longleftrightarrow> state_items g2 s = Some its)
          \<and> filter is_Arc its12 = filter is_Arc its21
          \<and> filter (\<lambda>it. \<not> is_Arc it) its12 = filter (\<lambda>it. \<not> is_Arc it) its21
          \<and> (\<forall>k. k \<noteq> s \<longrightarrow> state_items g12 k = state_items g21 k))
     \<and> (\<forall>g' its its'. homophones g' = homophones g \<and> state_items g s = Some its
           \<and> state_items g' s = Some its' \<and> filter is_Arc its' = filter is_Arc its \<longrightarrow>
           homophoneArcExists g' s l = homophoneArcExists g s l)"
proof -
  from assms(2) obtain its where its: "state_items g s = Some its"
    and g1: "g1 = g\<lparr>states := AList.update s (its @ [FinalState s wm]) (states g)\<rparr>"
    using addFinalState_InrD by blast
  have hN: "homophones g None = {}" using assms(1) by (simp add: readHomophones_None_key)
  let ?b = "\<exists>it \<in> set its. l \<in> homophones g (getattr_in_label it)"
  let ?a = "Arc s t l ol w"
  let ?f = "FinalState s wm"
  have its1: "state_items g1 s = Some (its @ [?f])"
    by (simp add: g1 state_items_update)
  have hg1: "homophones g1 = homophones g" by (simp add: g1)
  have b1: "(\<exists>it \<in> set (its @ [?f]). l \<in> homophones g1 (getattr_in_label it)) = ?b"
    using hN by (auto simp add: hg1)
  have e0: "homophoneArcExists g s l = Inr ?b"
    using its by (rule homophoneArcExists_result)
  have e1: "homophoneArcExists g1 s l = Inr ?b"
    using homophoneArcExists_result[OF its1, of l] b1 by simp
  let ?g12 = "if ?b then g1
    else g1\<lparr>states := AList.update s ((its @ [?f]) @ [?a]) (states g1)\<rparr>"
  let ?g2 = "if ?b then g else g\<lparr>states := AList.update s (its @ [?a]) (states g)\<rparr>"
  have a12: "addArc g1 s t l ol w = Inr ?g12"
    using addArc_result[OF its1, of t l ol w] b1 by simp
  have a2: "addArc g s t l ol w = Inr ?g2"
    using its by (rule addArc_result)
  have its2: "state_items ?g2 s = Some (if ?b then its else its @ [?a])"
    using its by (simp add: state_items_update)
  let ?g21 = "?g2\<lparr>states :=
    AList.update s ((if ?b then its else its @ [?a]) @ [?f]) (states ?g2)\<rparr>"
  have a21: "addFinalState ?g2 s wm = Inr ?g21"
    using its2 by (rule addFinalState_result)
  have i12: "state_items ?g12 s = Some (if ?b then its @ [?f] else its @ [?f, ?a])"
    using its1 by (simp add: state_items_update)
  have i21: "state_items ?g21 s = Some (if ?b then its @ [?f] else its @ [?a, ?f])"
    by (simp add: state_items_update)
  have oth: "\<forall>k. k \<noteq> s \<longrightarrow> state_items ?g12 k = state_items ?g21 k"
    by (simp add: state_items_update g1)
  have first: "homophoneArcExists g1 s l = homophoneArcExists g s l"
    unfolding e0 e1 by (rule refl)
  have second: "\<exists>g12 g2 g21 its1 its its12 its21.
          addArc g1 s t l ol w = Inr g12 \<and> addArc g s t l ol w = Inr g2
          \<and> addFinalState g2 s wm = Inr g21
          \<and> state_items g s = Some its \<and> state_items g1 s = Some its1
          \<and> state_items g12 s = Some its12 \<and> state_items g21 s = Some its21
          \<and> (its12 = its1 \<longleftrightarrow> state_items g2 s = Some its)
          \<and> filter is_Arc its12 = filter is_Arc its21
          \<and> filter (\<lambda>it. \<not> is_Arc it) its12 = filter (\<lambda>it. \<not> is_Arc it) its21
          \<and> (\<forall>k. k \<noteq> s \<longrightarrow> state_items g12 k = state_items g21 k)"
    apply (rule exI[of _ ?g12], rule exI[of _ ?g2], rule exI[of _ ?g21])
    apply (rule exI[of _ "its @ [?f]"], rule exI[of _ its])
    apply (rule exI[of _ "if ?b then its @ [?f] else its @ [?f, ?a]"])
    apply (rule exI[of _ "if ?b then its @ [?f] else its @ [?a, ?f]"])
    using a12 a2 a21 its its1 i12 i21 its2 oth
    apply (cases ?b)
     apply simp_all
    done
  have third: "\<forall>g' its its'. homophones g' = homophones g \<and> state_items g s = Some its
           \<and> state_items g' s = Some its' \<and> filter is_Arc its' = filter is_Arc its \<longrightarrow>
           homophoneArcExists g' s l = homophoneArcExists g s l"
  proof (intro allI impI)
    fix g' xs xs'
    assume a: "homophones g' = homophones g \<and> state_items g s = Some xs
           \<and> state_items g' s = Some xs' \<and> filter is_Arc xs' = filter is_Arc xs"
    have "(\<exists>it \<in> set xs'. l \<in> homophones g (getattr_in_label it)) =
        (\<exists>it \<in> set xs. l \<in> homophones g (getattr_in_label it))"
      using guard_ignores_markers[of "homophones g" xs' l]
        guard_ignores_markers[of "homophones g" xs l] hN a
      by simp
    then show "homophoneArcExists g' s l = homophoneArcExists g s l"
      using a by (simp add: homophoneArcExists_def)
  qed
  show ?thesis using first second third by (intro conjI)
qed

text \<open>
  On the graph with the homophone group read red: state 0, which has the arc
  labelled read, is marked final with weight 3; the guard at state 0 answers for
  blue after the marker as before it, namely False.
\<close>

theorem addFinalState_never_blocks_addArc_witness:
  "homophones graph_read = readHomophones (Some [[''read'', ''red'']])
   \<and> addFinalState graph_read 0 3 =
       Inr (graph_read\<lparr>states :=
         [(0, [Arc 0 1 ''read'' ''read'' 100, FinalState 0 3]), (1, [FinalState 1 0])]\<rparr>)
   \<and> homophoneArcExists (graph_read\<lparr>states :=
         [(0, [Arc 0 1 ''read'' ''read'' 100, FinalState 0 3]), (1, [FinalState 1 0])]\<rparr>)
         0 ''blue'' = homophoneArcExists graph_read 0 ''blue''
   \<and> homophoneArcExists graph_read 0 ''blue'' = Inr False"
proof -
  have h1: "homophones graph_read = readHomophones (Some [[''read'', ''red'']])"
    by (simp add: graph_read_def)
  have h2: "addFinalState graph_read 0 3 =
       Inr (graph_read\<lparr>states :=
         [(0, [Arc 0 1 ''read'' ''read'' 100, FinalState 0 3]), (1, [FinalState 1 0])]\<rparr>)"
    by (simp add: graph_read_def construction_defs)
  have h3: "homophoneArcExists graph_read 0 ''blue'' = Inr False"
    by (simp add: graph_read_def construction_defs)
  show ?thesis
    using addFinalState_never_blocks_addArc [OF h1 h2, THEN conjunct1, of "''blue''"]
      h1 h2 h3 by simp
qed

section \<open>The current word\<close>

text \<open>
  C9. On every graph built by calls of the operations from a new PromptLMFST, where
  ls are the labels addNextWord was called with: curr\_word raises RuntimeError (with
  the message that no words were added yet; the spec's UninitializedChainError) when
  ls is empty, returns the last Word of the chain, whose label is the last label
  appended, when ls is not empty, and raises nothing else.
\<close>

theorem curr_word_of_built:
  assumes "built ls g"
  shows "(ls = [] \<longrightarrow> curr_word g = Inl RuntimeError)
     \<and> (ls \<noteq> [] \<longrightarrow> curr_word g = Inr (last (words g)) \<and> label (last (words g)) = last ls)
     \<and> ((\<exists>e. curr_word g = Inl e) \<longleftrightarrow> ls = [])"
proof -
  from built_invariant[OF assms]
  have m: "map label (words g) = ls" and i: "initialised g = (ls \<noteq> [])"
    by simp_all
  have ne: "ls \<noteq> [] \<Longrightarrow> words g \<noteq> []" using m by auto
  have l: "ls \<noteq> [] \<Longrightarrow> label (last (words g)) = last ls"
    using m ne by (metis last_map)
  show ?thesis using i ne l
    by (cases "words g") (auto simp add: curr_word_def)
qed

text \<open>
  A new graph has no current word; after addNextWord with the label a and then
  newState, the current word is the Word a from state 0 to state 1.
\<close>

theorem curr_word_of_built_witness:
  "built [] (PromptLMFST_init (readHomophones None) None)
   \<and> curr_word (PromptLMFST_init (readHomophones None) None) = Inl RuntimeError
   \<and> built ([] @ [''a''])
       \<lparr>ID = None, words = [\<lparr>label = ''a'', start = 0, final = 1\<rparr>],
        states = [(0, []), (1, []), (2, [])], state_counter = 2, initialised = True,
        homophones = readHomophones None\<rparr>
   \<and> curr_word
       \<lparr>ID = None, words = [\<lparr>label = ''a'', start = 0, final = 1\<rparr>],
        states = [(0, []), (1, []), (2, [])], state_counter = 2, initialised = True,
        homophones = readHomophones None\<rparr>
     = Inr \<lparr>label = ''a'', start = 0, final = 1\<rparr>"
proof -
  let ?g0 = "PromptLMFST_init (readHomophones None) None"
  let ?g1 = "\<lparr>ID = None, words = [\<lparr>label = ''a'', start = 0, final = 1\<rparr>],
        states = [(0, []), (1, [])], state_counter = 1, initialised = True,
        homophones = readHomophones None\<rparr>"
  let ?g2 = "\<lparr>ID = None, words = [\<lparr>label = ''a'', start = 0, final = 1\<rparr>],
        states = [(0, []), (1, []), (2, [])], state_counter = 2, initialised = True,
        homophones = readHomophones None\<rparr>"
  have b0: "built [] ?g0" by (rule built_init)
  have a1: "addNextWord ''a'' ?g0 = Inr ?g1"
    by (simp add: construction_defs)
  have b1: "built ([] @ [''a'']) ?g1" using b0 a1 by (rule built_addNextWord)
  have n2: "fst (newState ?g1) = ?g2" by (simp add: construction_defs)
  have b2: "built ([] @ [''a'']) ?g2" using built_newState[OF b1] unfolding n2 .
  show ?thesis
    using curr_word_of_built [OF b0] curr_word_of_built [OF b2] b0 b2 by simp
qed

section \<open>Chain continuity\<close>

text \<open>
  C8. For every sequence of labels appended to a new graph: the words carry the
  labels in order; the first word starts at the state the counter was initialised to;
  every later word starts at the final state of the word before it, which is the
  current word at the time of the call; and the final state of every word is a state
  number that is no key of the graph before the call and has an empty list after it.
\<close>

theorem addWordSequence_chain_continuity:
  "\<exists>g. addWordSequence ls (PromptLMFST_init h i) = Inr g
     \<and> map label (words g) = ls
     \<and> (ls \<noteq> [] \<longrightarrow> start (hd (words g)) = state_counter (PromptLMFST_init h i))
     \<and> (\<forall>k. Suc k < length ls \<longrightarrow> start (words g ! Suc k) = final (words g ! k))
     \<and> (\<forall>k < length ls. \<exists>g_before g_after.
           addWordSequence (take k ls) (PromptLMFST_init h i) = Inr g_before
         \<and> addNextWord (ls ! k) g_before = Inr g_after
         \<and> words g_before = take k (words g)
         \<and> words g_after = take (Suc k) (words g)
         \<and> final (words g ! k) \<notin> set (state_keys g_before)
         \<and> state_items g_after (final (words g ! k)) = Some []
         \<and> (k = 0 \<longrightarrow> start (words g ! k) = state_counter g_before)
         \<and> (0 < k \<longrightarrow> curr_word g_before = Inr (words g ! (k - 1))
                      \<and> start (words g ! k) = final (words g ! (k - 1))))"
proof -
  let ?g = "chain_graph h i ls"
  have r: "addWordSequence ls (PromptLMFST_init h i) = Inr ?g"
    by (rule addWordSequence_init)
  have w: "words ?g = word_chain ls" by (simp add: chain_graph_def)
  have l: "map label (words ?g) = ls" by (simp add: w map_label_word_chain)
  have s0: "ls \<noteq> [] \<longrightarrow> start (hd (words ?g)) = state_counter (PromptLMFST_init h i)"
    by (auto simp add: w hd_conv_nth word_chain_eq_Nil word_chain_nth PromptLMFST_init_def)
  have c: "\<forall>k. Suc k < length ls \<longrightarrow> start (words ?g ! Suc k) = final (words ?g ! k)"
    by (simp add: w word_chain_nth)
  have f: "\<forall>k < length ls. \<exists>g_before g_after.
           addWordSequence (take k ls) (PromptLMFST_init h i) = Inr g_before
         \<and> addNextWord (ls ! k) g_before = Inr g_after
         \<and> words g_before = take k (words ?g)
         \<and> words g_after = take (Suc k) (words ?g)
         \<and> final (words ?g ! k) \<notin> set (state_keys g_before)
         \<and> state_items g_after (final (words ?g ! k)) = Some []
         \<and> (k = 0 \<longrightarrow> start (words ?g ! k) = state_counter g_before)
         \<and> (0 < k \<longrightarrow> curr_word g_before = Inr (words ?g ! (k - 1))
                      \<and> start (words ?g ! k) = final (words ?g ! (k - 1)))"
  proof (intro allI impI)
    fix k assume k: "k < length ls"
    let ?b = "chain_graph h i (take k ls)"
    let ?a = "chain_graph h i (take (Suc k) ls)"
    have 1: "addWordSequence (take k ls) (PromptLMFST_init h i) = Inr ?b"
      by (rule addWordSequence_init)
    have 2: "addNextWord (ls ! k) ?b = Inr ?a"
      using k by (simp add: addNextWord_chain_graph take_Suc_conv_app_nth)
    have 3: "words ?b = take k (words ?g)"
      by (simp add: chain_graph_def take_word_chain)
    have 4: "words ?a = take (Suc k) (words ?g)"
      by (simp add: chain_graph_def take_word_chain)
    have 5: "final (words ?g ! k) \<notin> set (state_keys ?b)"
      using k by (simp add: w word_chain_nth state_keys_chain_graph)
    have 6: "state_items ?a (final (words ?g ! k)) = Some []"
      using k by (auto simp add: w word_chain_nth state_items_chain_graph)
    have 7: "k = 0 \<longrightarrow> start (words ?g ! k) = state_counter ?b"
      using k by (auto simp add: w word_chain_nth chain_graph_def)
    have 8: "0 < k \<longrightarrow> curr_word ?b = Inr (words ?g ! (k - 1))
                      \<and> start (words ?g ! k) = final (words ?g ! (k - 1))"
    proof
      assume p: "0 < k"
      then have ne: "take k ls \<noteq> []" using k by auto
      have "curr_word ?b = Inr (last (word_chain (take k ls)))"
        using ne by (simp add: curr_word_def chain_graph_def word_chain_eq_Nil split: list.splits)
      also have "last (word_chain (take k ls)) = word_chain ls ! (k - 1)"
        using ne p k by (simp add: last_word_chain word_chain_nth last_conv_nth min_def)
      finally show "curr_word ?b = Inr (words ?g ! (k - 1))
                      \<and> start (words ?g ! k) = final (words ?g ! (k - 1))"
        using p k by (simp add: w word_chain_nth)
    qed
    show "\<exists>g_before g_after.
           addWordSequence (take k ls) (PromptLMFST_init h i) = Inr g_before
         \<and> addNextWord (ls ! k) g_before = Inr g_after
         \<and> words g_before = take k (words ?g)
         \<and> words g_after = take (Suc k) (words ?g)
         \<and> final (words ?g ! k) \<notin> set (state_keys g_before)
         \<and> state_items g_after (final (words ?g ! k)) = Some []
         \<and> (k = 0 \<longrightarrow> start (words ?g ! k) = state_counter g_before)
         \<and> (0 < k \<longrightarrow> curr_word g_before = Inr (words ?g ! (k - 1))
                      \<and> start (words ?g ! k) = final (words ?g ! (k - 1)))"
      using 1 2 3 4 5 6 7 8 by blast
  qed
  show ?thesis using r l s0 c f by blast
qed

text \<open>The chain of the prompt the cat sat: states 0 to 3, each word from one to the next.\<close>

theorem addWordSequence_chain_continuity_witness:
  "addWordSequence [''the'', ''cat'', ''sat''] (PromptLMFST_init (readHomophones None) None) =
     Inr \<lparr>ID = None,
          words = [\<lparr>label = ''the'', start = 0, final = 1\<rparr>,
                   \<lparr>label = ''cat'', start = 1, final = 2\<rparr>,
                   \<lparr>label = ''sat'', start = 2, final = 3\<rparr>],
          states = [(0, []), (1, []), (2, []), (3, [])],
          state_counter = 3, initialised = True, homophones = readHomophones None\<rparr>
   \<and> Suc 0 < length [''the'', ''cat'', ''sat''] \<and> Suc 1 < length [''the'', ''cat'', ''sat'']
   \<and> addWordSequence (take 2 [''the'', ''cat'', ''sat''])
         (PromptLMFST_init (readHomophones None) None) =
     Inr \<lparr>ID = None,
          words = [\<lparr>label = ''the'', start = 0, final = 1\<rparr>,
                   \<lparr>label = ''cat'', start = 1, final = 2\<rparr>],
          states = [(0, []), (1, []), (2, [])],
          state_counter = 2, initialised = True, homophones = readHomophones None\<rparr>"
  using addWordSequence_chain_continuity
    [of "[''the'', ''cat'', ''sat'']" "readHomophones None" None]
  by (simp add: construction_defs)

section \<open>Existence of the correct path\<close>

text \<open>
  C5. The claim: for every non-empty prompt the graph has, after the correct paths,
  a path from the initial state to an accepting state whose input labels, read with
  the special labels removed, are the prompt. For the prompt whose one word is the
  epsilon label the correct path is the arc from 0 to 1 with that label, its reading
  is empty, and no path at all reads as the prompt.
\<close>

theorem correct_path_of_special_word_reads_empty:
  "addWordSequence [''<eps>''] (PromptLMFST_init (readHomophones None) None) =
     Inr graph_eps_chain
   \<and> addCorrectPaths graph_eps_chain weights = Inr graph_eps_correct
   \<and> is_path graph_eps_correct 0 [Arc 0 1 ''<eps>'' ''<eps>'' 100] 1
   \<and> read_labels [Arc 0 1 ''<eps>'' ''<eps>'' 100] = []
   \<and> \<not> (\<exists>p t. is_path graph_eps_correct 0 p t \<and> accepting graph_eps_correct t
             \<and> read_labels p = [''<eps>''])"
proof -
  have a: "addWordSequence [''<eps>''] (PromptLMFST_init (readHomophones None) None) =
     Inr graph_eps_chain"
    by (simp add: construction_defs graph_eps_chain_def)
  have b: "addCorrectPaths graph_eps_chain weights = Inr graph_eps_correct"
    by (simp add: construction_defs graph_eps_chain_def graph_eps_correct_def)
  have c: "is_path graph_eps_correct 0 [Arc 0 1 ''<eps>'' ''<eps>'' 100] 1"
    by (simp add: graph_eps_correct_def state_items_def)
  have d: "read_labels [Arc 0 1 ''<eps>'' ''<eps>'' 100] = []"
    by (simp add: read_labels_def input_labels_def is_special_label_def special_Epsilon_def)
  have e: "read_labels p \<noteq> [''<eps>'']" for p
  proof
    assume "read_labels p = [''<eps>'']"
    then have "''<eps>'' \<in> set (filter (\<lambda>l. \<not> is_special_label l) (input_labels p))"
      by (simp add: read_labels_def)
    then show False by (simp add: is_special_label_def special_Epsilon_def)
  qed
  show ?thesis using a b c d e by blast
qed

text \<open>
  C5 as amended. For every non-empty prompt none of whose words is one of the
  special labels, for every homophone index and weight table: after the word chain
  and the correct paths the arcs of the words, in order, each with the Correct
  weight, are a path from the initial state to the final state of the last word,
  that state is accepting and holds the marker with the FinalState weight, and the
  path's reading is the prompt.
\<close>

theorem correct_path_exists:
  assumes "ls \<noteq> []" and "\<forall>l \<in> set ls. \<not> is_special_label l"
  shows "\<exists>g1 g2 p t. addWordSequence ls (PromptLMFST_init h i) = Inr g1
     \<and> addCorrectPaths g1 wt = Inr g2
     \<and> is_path g2 (state_counter (PromptLMFST_init h i)) p t
     \<and> accepting g2 t
     \<and> read_labels p = ls
     \<and> p = map (\<lambda>word. Arc (start word) (final word) (label word) (label word) (Correct wt))
              (words g2)
     \<and> t = final (last (words g2))
     \<and> state_items g2 t = Some [FinalState t (FinalState_weight wt)]"
proof -
  let ?n = "length ls"
  let ?g1 = "chain_graph h i ls"
  have a: "addWordSequence ls (PromptLMFST_init h i) = Inr ?g1"
    by (rule addWordSequence_init)
  from correct_paths_on_chain[OF assms(1), of h i wt] obtain g2 where
    b: "addCorrectPaths ?g1 wt = Inr g2" and w: "words g2 = word_chain ls"
    and it: "\<forall>k < ?n. state_items g2 k = Some [Arc k (Suc k) (ls ! k) (ls ! k) (Correct wt)]"
    and fi: "state_items g2 ?n = Some [FinalState ?n (FinalState_weight wt)]"
    by blast
  let ?p = "map (\<lambda>k. Arc k (Suc k) (ls ! k) (ls ! k) (Correct wt)) [0..<?n]"
  have pw: "?p = map (\<lambda>word. Arc (start word) (final word) (label word) (label word) (Correct wt))
              (words g2)"
    by (simp add: w word_chain_def comp_def)
  have "\<forall>k < ?n. \<exists>its. state_items g2 k = Some its
      \<and> Arc k (Suc k) (ls ! k) (ls ! k) (Correct wt) \<in> set its"
    using it by simp
  then have path: "is_path g2 0 ?p ?n"
    using is_path_chain[of ?n g2 "\<lambda>k. ls ! k" "\<lambda>k. ls ! k" "Correct wt" 0] by simp
  have acc: "accepting g2 ?n" by (simp add: accepting_def fi)
  have il: "input_labels ?p = ls"
    by (simp add: input_labels_arcs map_nth)
  have rl: "read_labels ?p = ls"
    unfolding read_labels_def il using assms(2) by (simp add: filter_id_conv)
  have t: "?n = final (last (words g2))"
    using assms(1) by (simp add: w last_word_chain)
  have c0: "state_counter (PromptLMFST_init h i) = 0" by (simp add: PromptLMFST_init_def)
  show ?thesis
    apply (rule exI[of _ ?g1], rule exI[of _ g2], rule exI[of _ ?p], rule exI[of _ ?n])
    using a b path acc rl pw t fi unfolding c0 by simp
qed

text \<open>The prompt the cat sat has its correct path from state 0 to state 3.\<close>

theorem correct_path_exists_witness:
  "[''the'', ''cat'', ''sat''] \<noteq> []
   \<and> \<not> is_special_label ''the'' \<and> \<not> is_special_label ''cat''
   \<and> \<not> is_special_label ''sat''
   \<and> (\<exists>g1 g2 p t.
        addWordSequence [''the'', ''cat'', ''sat'']
          (PromptLMFST_init (readHomophones None) None) = Inr g1
      \<and> addCorrectPaths g1 weights = Inr g2
      \<and> is_path g2 (state_counter (PromptLMFST_init (readHomophones None) None)) p t
      \<and> accepting g2 t
      \<and> read_labels p = [''the'', ''cat'', ''sat''])"
proof -
  have h1: "[''the'', ''cat'', ''sat''] \<noteq> []" by simp
  have h3: "\<not> is_special_label ''the'' \<and> \<not> is_special_label ''cat''
      \<and> \<not> is_special_label ''sat''"
    by (simp add: is_special_label_def special_Epsilon_def special_Rubbish_def
        special_Skip_def)
  then have h2: "\<forall>l \<in> set [''the'', ''cat'', ''sat'']. \<not> is_special_label l"
    by simp
  have "\<exists>g1 g2 p t.
        addWordSequence [''the'', ''cat'', ''sat'']
          (PromptLMFST_init (readHomophones None) None) = Inr g1
      \<and> addCorrectPaths g1 weights = Inr g2
      \<and> is_path g2 (state_counter (PromptLMFST_init (readHomophones None) None)) p t
      \<and> accepting g2 t
      \<and> read_labels p = [''the'', ''cat'', ''sat'']"
    using correct_path_exists [OF h1 h2, of "readHomophones None" None weights] by blast
  then show ?thesis using h1 h3 by blast
qed

section \<open>The construction of the prompt A A B\<close>

lemma built_graph_aab_rubbish: "built ([] @ [''A'', ''A'', ''B'']) graph_aab_rubbish"
proof -
  have b0: "built [] (PromptLMFST_init (readHomophones None) None)" by (rule built_init)
  have a1: "addWordSequence [''A'', ''A'', ''B''] (PromptLMFST_init (readHomophones None) None)
      = Inr graph_aab_chain"
    by (simp add: construction_defs graph_aab_chain_def)
  have a2: "addCorrectPaths graph_aab_chain weights = Inr graph_aab_correct"
    by (simp add: construction_defs graph_aab_chain_def graph_aab_correct_def)
  have a3: "addRubbishPaths graph_aab_correct weights = Inr graph_aab_rubbish"
    by (simp add: construction_defs graph_aab_correct_def graph_aab_rubbish_def)
  show ?thesis
    using built_addRubbishPaths[OF built_addCorrectPaths[OF built_addWordSequence[OF b0 a1] a2] a3] .
qed

lemma addSkipPaths_graph_aab: "addSkipPaths graph_aab_rubbish weights = Inr graph_aab_skip"
  by (simp add: construction_defs graph_aab_rubbish_def graph_aab_skip_def)

lemma addRepeatPaths_graph_aab: "addRepeatPaths graph_aab_skip weights = Inr graph_aab_repeat"
  by (simp add: construction_defs graph_aab_skip_def graph_aab_repeat_def)

section \<open>The skip paths\<close>

text \<open>
  C6. The claim: for each adjacent pair of words with different labels the skip
  recipe adds a new state and exactly two arcs, from word.start to the new state and
  from the new state to next\_word.final. With read and red on one line of the
  homophone file and the prompt read red, state 0 already has the correct arc
  labelled read when the skip recipe runs, so the guard drops the arc from state 0
  that consumes red: state 0 keeps its two arcs, and the new state 3 has its epsilon
  arc but no arc enters it.
\<close>

theorem addSkipPaths_read_red_arc_suppressed:
  "addWordSequence [''read'', ''red'']
     (PromptLMFST_init (readHomophones (Some [[''read'', ''red'']])) None) = Inr graph_rr_chain
   \<and> addCorrectPaths graph_rr_chain weights = Inr graph_rr_correct
   \<and> addRubbishPaths graph_rr_correct weights = Inr graph_rr_rubbish
   \<and> addSkipPaths graph_rr_rubbish weights = Inr graph_rr_skip
   \<and> state_items graph_rr_skip 0 =
       Some [Arc 0 1 ''read'' ''read'' 100, Arc 0 0 ''[RUB]'' ''[RUB]'' 5]
   \<and> state_items graph_rr_skip 3 = Some [Arc 3 2 ''<eps>'' ''red'' 100]"
proof -
  have a1: "addWordSequence [''read'', ''red'']
     (PromptLMFST_init (readHomophones (Some [[''read'', ''red'']])) None) = Inr graph_rr_chain"
    by (simp add: construction_defs graph_rr_chain_def)
  have a2: "addCorrectPaths graph_rr_chain weights = Inr graph_rr_correct"
    by (simp add: construction_defs graph_rr_chain_def graph_rr_correct_def)
  have a3: "addRubbishPaths graph_rr_correct weights = Inr graph_rr_rubbish"
    by (simp add: construction_defs graph_rr_correct_def graph_rr_rubbish_def)
  have a4: "addSkipPaths graph_rr_rubbish weights = Inr graph_rr_skip"
    by (simp add: construction_defs graph_rr_rubbish_def graph_rr_skip_def)
  have a5: "state_items graph_rr_skip 0 =
       Some [Arc 0 1 ''read'' ''read'' 100, Arc 0 0 ''[RUB]'' ''[RUB]'' 5]"
    by (simp add: state_items_def graph_rr_skip_def)
  have a6: "state_items graph_rr_skip 3 = Some [Arc 3 2 ''<eps>'' ''red'' 100]"
    by (simp add: state_items_def graph_rr_skip_def)
  show ?thesis using a1 a2 a3 a4 a5 a6 by simp
qed

text \<open>
  C6 as amended. On every graph built by the operations with at least one word, the
  skip recipe succeeds and, where c is the state counter before it runs:
  \<^item> it allocates one new state for each adjacent pair with different labels, the
    state c + 1 + j for the j-th such pair, and no other state; the words, the index
    and the other parts of the graph stay as they are;
  \<^item> the new state of a pair holds exactly the arc to next\_word.final with epsilon
    input, next\_word.label output and the Correct weight;
  \<^item> word.start of the pair gets, at the end of its list, the arc to the new state
    consuming next\_word.label with the skip marker as output and the Skip weight,
    unless the guard finds next\_word.label among the homophones of a label already
    in that list; then the list stays as it is;
  \<^item> for a pair with equal labels the list of word.start stays as it is;
  \<^item> the start state of the last word gets the arc to its final state with epsilon
    input, the skip marker as output and the Skip weight, under the same guard;
  \<^item> every other state that existed keeps its list.
\<close>

theorem addSkipPaths_effect:
  assumes "built ls g" and "ls \<noteq> []"
  shows "\<exists>g'. addSkipPaths g wt = Inr g'
     \<and> words g' = words g \<and> homophones g' = homophones g
     \<and> initialised g' = initialised g \<and> ID g' = ID g
     \<and> state_counter g' = state_counter g + length (differing_pairs (words g))
     \<and> state_keys g' =
         state_keys g @ [Suc (state_counter g)..<
                          Suc (state_counter g + length (differing_pairs (words g)))]
     \<and> (\<forall>j < length (differing_pairs (words g)).
           Suc (state_counter g + j) \<notin> set (state_keys g)
         \<and> state_items g' (Suc (state_counter g + j)) =
             Some [Arc (Suc (state_counter g + j))
                     (final (snd (differing_pairs (words g) ! j))) special_Epsilon
                     (label (snd (differing_pairs (words g) ! j))) (Correct wt)]
         \<and> (\<exists>its. state_items g (start (fst (differing_pairs (words g) ! j))) = Some its
              \<and> state_items g' (start (fst (differing_pairs (words g) ! j))) =
                  Some (its @
                    (if homophoneArcExists g (start (fst (differing_pairs (words g) ! j)))
                          (label (snd (differing_pairs (words g) ! j))) = Inr True
                     then []
                     else [Arc (start (fst (differing_pairs (words g) ! j)))
                             (Suc (state_counter g + j))
                             (label (snd (differing_pairs (words g) ! j)))
                             special_Skip (Skip wt)]))))
     \<and> (\<forall>(word, next_word) \<in> set (zip (words g) (tl (words g))).
           label word = label next_word \<longrightarrow>
           state_items g' (start word) = state_items g (start word))
     \<and> (\<exists>its. state_items g (start (last (words g))) = Some its
           \<and> state_items g' (start (last (words g))) =
               Some (its @
                 (if homophoneArcExists g (start (last (words g))) special_Epsilon = Inr True
                  then []
                  else [Arc (start (last (words g))) (final (last (words g)))
                          special_Epsilon special_Skip (Skip wt)])))
     \<and> (\<forall>s. s \<notin> start ` set (words g) \<longrightarrow> s \<le> state_counter g \<longrightarrow>
           state_items g' s = state_items g s)"
proof -
  let ?ws = "words g"
  let ?ps = "zip ?ws (tl ?ws)"
  let ?P = "\<lambda>p. label (fst p) \<noteq> label (snd p)"
  let ?xs = "differing_pairs ?ws"
  let ?st = "\<lambda>p. start (fst p)"
  let ?lw = "last ?ws"
  let ?c = "state_counter g"
  let ?m = "length ?xs"
  have xs: "?xs = filter ?P ?ps" by (rule differing_pairs_filter)
  have ok: "chain_ok g" using assms(1) by (rule built_chain_ok)
  have ne: "?ws \<noteq> []" using built_invariant[OF assms(1)] assms(2) by auto
  have bnd: "\<forall>k \<in> set (state_keys g). k \<le> ?c" using ok by (simp add: chain_ok_def)
  have ds: "distinct (map start ?ws)" using ok by (simp add: chain_ok_def)
  have dw: "distinct ?ws" using ds by (simp add: distinct_map)
  have inj: "inj_on start (set ?ws)" using ds by (simp add: distinct_map)
  have keys: "\<forall>w \<in> set ?ws. start w \<in> set (state_keys g)"
    using ok by (simp add: chain_ok_def)
  have ex: "\<forall>w \<in> set ?ws. \<exists>its. state_items g (start w) = Some its"
    using keys by (simp add: state_items_Some_iff_key)
  have le: "\<forall>w \<in> set ?ws. start w \<le> ?c" using keys bnd by blast
  have bl: "set (butlast ?ws) \<subseteq> set ?ws" by (auto dest: in_set_butlastD)
  have lwin: "?lw \<in> set ?ws" using ne by simp
  have lwnb: "?lw \<notin> set (butlast ?ws)" using dw ne by (rule last_notin_butlast)
  have fstb: "\<forall>p \<in> set ?ps. fst p \<in> set (butlast ?ws)"
    using zip_tl_fst_butlast by blast
  have fstw: "\<forall>p \<in> set ?ps. fst p \<in> set ?ws" using fstb bl by blast
  have xsub: "set ?xs \<subseteq> set ?ps" by (auto simp add: xs)
  have "map ?st ?ps = map start (map fst ?ps)" by (simp add: comp_def)
  then have mst: "map ?st ?ps = map start (butlast ?ws)"
    by (simp only: map_fst_zip_tl)
  have "distinct (map start (butlast ?ws))"
    using ds by (simp add: map_butlast distinct_butlast)
  then have dps: "distinct (map ?st ?ps)" using mst by simp
  have dxs: "distinct (map ?st ?xs)" unfolding xs using dps by (rule distinct_map_filter)
  have kxs: "\<forall>p \<in> set ?xs. start (fst p) \<in> set (state_keys g)"
    using keys fstw xsub by blast
  have lxs: "\<forall>p \<in> set ?xs. label (fst p) \<noteq> label (snd p)" by (simp add: xs)
  from skip_loop[OF bnd dxs kxs lxs, of wt]
  obtain g1 where
    r1: "for_each (skip_step wt) ?xs g = Inr g1"
    and c1: "state_counter g1 = ?c + ?m"
    and k1: "state_keys g1 = state_keys g @ [Suc ?c..<Suc (?c + ?m)]"
    and f1: "words g1 = words g \<and> homophones g1 = homophones g
       \<and> initialised g1 = initialised g \<and> ID g1 = ID g"
    and j1: "\<forall>j < ?m.
           state_items g1 (Suc (?c + j)) =
             Some [Arc (Suc (?c + j)) (final (snd (?xs ! j))) special_Epsilon
                     (label (snd (?xs ! j))) (Correct wt)]
         \<and> (\<forall>its. state_items g (start (fst (?xs ! j))) = Some its \<longrightarrow>
               state_items g1 (start (fst (?xs ! j))) =
                 Some (its @
                   (if homophoneArcExists g (start (fst (?xs ! j))) (label (snd (?xs ! j)))
                         = Inr True
                    then []
                    else [Arc (start (fst (?xs ! j))) (Suc (?c + j))
                            (label (snd (?xs ! j))) special_Skip (Skip wt)])))"
    and o1: "\<forall>s. s \<notin> ?st ` set ?xs \<longrightarrow> (s \<le> ?c \<or> ?c + ?m < s) \<longrightarrow>
           state_items g1 s = state_items g s"
    by blast
  have "for_each (skip_step wt) ?ps g = for_each (skip_step wt) (filter ?P ?ps) g"
    by (rule for_each_skip_unchanged) (simp add: skip_step_equal_labels)
  then have loop_eq: "for_each (skip_step wt) ?ps g = Inr g1" using r1 xs by simp
  have lw1: "last_word g1 = Inr ?lw"
    using ne f1 by (simp add: last_word_def split: list.splits)
  have lnot: "start ?lw \<notin> ?st ` set ?xs"
  proof
    assume "start ?lw \<in> ?st ` set ?xs"
    then obtain p where p: "p \<in> set ?ps" and e: "start ?lw = start (fst p)"
      using xsub by auto
    have "fst p \<in> set ?ws" using fstw p by blast
    then have "?lw = fst p" using inj lwin e by (simp add: inj_on_def)
    then show False using fstb p lwnb by auto
  qed
  have lle: "start ?lw \<le> ?c" using le lwin by blast
  from ex lwin obtain itsL where sL: "state_items g (start ?lw) = Some itsL" by blast
  have sL1: "state_items g1 (start ?lw) = Some itsL" using o1 lnot lle sL by simp
  have gL: "homophoneArcExists g1 (start ?lw) special_Epsilon
      = homophoneArcExists g (start ?lw) special_Epsilon"
    by (rule homophoneArcExists_cong) (simp_all add: sL sL1 f1)
  from addArc_effect[OF sL1, of "final ?lw" special_Epsilon special_Skip "Skip wt"]
  obtain g' where
    a': "addArc g1 (start ?lw) (final ?lw) special_Epsilon special_Skip (Skip wt) = Inr g'"
    and iL: "state_items g' (start ?lw) =
         Some (itsL @ (if homophoneArcExists g1 (start ?lw) special_Epsilon = Inr True then []
                       else [Arc (start ?lw) (final ?lw) special_Epsilon special_Skip
                               (Skip wt)]))"
    and o': "\<forall>k. k \<noteq> start ?lw \<longrightarrow> state_items g' k = state_items g1 k"
    and f': "state_keys g' = state_keys g1 \<and> words g' = words g1
     \<and> state_counter g' = state_counter g1 \<and> initialised g' = initialised g1
     \<and> homophones g' = homophones g1 \<and> ID g' = ID g1"
    by blast
  have R: "addSkipPaths g wt = Inr g'"
    by (simp add: addSkipPaths_def loop_eq lw1 a')
  have F: "words g' = words g \<and> homophones g' = homophones g
     \<and> initialised g' = initialised g \<and> ID g' = ID g
     \<and> state_counter g' = ?c + ?m
     \<and> state_keys g' = state_keys g @ [Suc ?c..<Suc (?c + ?m)]"
    using f' f1 c1 k1 by simp
  have J: "\<forall>j < ?m.
           Suc (?c + j) \<notin> set (state_keys g)
         \<and> state_items g' (Suc (?c + j)) =
             Some [Arc (Suc (?c + j)) (final (snd (?xs ! j))) special_Epsilon
                     (label (snd (?xs ! j))) (Correct wt)]
         \<and> (\<exists>its. state_items g (start (fst (?xs ! j))) = Some its
              \<and> state_items g' (start (fst (?xs ! j))) =
                  Some (its @
                    (if homophoneArcExists g (start (fst (?xs ! j))) (label (snd (?xs ! j)))
                          = Inr True
                     then []
                     else [Arc (start (fst (?xs ! j))) (Suc (?c + j))
                             (label (snd (?xs ! j))) special_Skip (Skip wt)])))"
  proof (intro allI impI)
    fix j assume jm: "j < ?m"
    let ?x = "?xs ! j"
    have xin: "?x \<in> set ?xs" using jm by simp
    then have xp: "?x \<in> set ?ps" using xsub by blast
    have xw: "fst ?x \<in> set ?ws" using fstw xp by blast
    have fresh: "Suc (?c + j) \<notin> set (state_keys g)" using bnd by force
    have "Suc (?c + j) \<noteq> start ?lw" using lle by simp
    then have a: "state_items g' (Suc (?c + j)) = state_items g1 (Suc (?c + j))"
      using o' by simp
    have "start (fst ?x) \<noteq> start ?lw"
    proof
      assume "start (fst ?x) = start ?lw"
      then have "fst ?x = ?lw" using inj xw lwin by (simp add: inj_on_def)
      then show False using fstb xp lwnb by auto
    qed
    then have b: "state_items g' (start (fst ?x)) = state_items g1 (start (fst ?x))"
      using o' by simp
    from ex xw obtain its where its: "state_items g (start (fst ?x)) = Some its" by blast
    from j1 jm have
      x: "state_items g1 (Suc (?c + j)) =
             Some [Arc (Suc (?c + j)) (final (snd ?x)) special_Epsilon
                     (label (snd ?x)) (Correct wt)]"
      and y: "\<forall>its. state_items g (start (fst ?x)) = Some its \<longrightarrow>
               state_items g1 (start (fst ?x)) =
                 Some (its @
                   (if homophoneArcExists g (start (fst ?x)) (label (snd ?x)) = Inr True
                    then []
                    else [Arc (start (fst ?x)) (Suc (?c + j))
                            (label (snd ?x)) special_Skip (Skip wt)]))"
      by blast+
    show "Suc (?c + j) \<notin> set (state_keys g)
         \<and> state_items g' (Suc (?c + j)) =
             Some [Arc (Suc (?c + j)) (final (snd ?x)) special_Epsilon
                     (label (snd ?x)) (Correct wt)]
         \<and> (\<exists>its. state_items g (start (fst ?x)) = Some its
              \<and> state_items g' (start (fst ?x)) =
                  Some (its @
                    (if homophoneArcExists g (start (fst ?x)) (label (snd ?x)) = Inr True
                     then []
                     else [Arc (start (fst ?x)) (Suc (?c + j))
                             (label (snd ?x)) special_Skip (Skip wt)])))"
      using fresh a b x y its by simp
  qed
  have E: "\<forall>p \<in> set ?ps. label (fst p) = label (snd p) \<longrightarrow>
           state_items g' (start (fst p)) = state_items g (start (fst p))"
  proof (intro ballI impI)
    fix p assume p: "p \<in> set ?ps" and eq: "label (fst p) = label (snd p)"
    have pw: "fst p \<in> set ?ws" using fstw p by blast
    have nl: "start (fst p) \<noteq> start ?lw"
    proof
      assume "start (fst p) = start ?lw"
      then have "fst p = ?lw" using inj pw lwin by (simp add: inj_on_def)
      then show False using fstb p lwnb by auto
    qed
    have nx: "start (fst p) \<notin> ?st ` set ?xs"
    proof
      assume "start (fst p) \<in> ?st ` set ?xs"
      then obtain q where q: "q \<in> set ?ps" and Pq: "?P q"
        and e: "start (fst p) = start (fst q)" by (auto simp add: xs)
      have "fst q \<in> set ?ws" using fstw q by blast
      then have fe: "fst p = fst q" using inj pw e by (simp add: inj_on_def)
      have "(fst p, snd p) \<in> set ?ps" using p by simp
      moreover have "(fst p, snd q) \<in> set ?ps" using q fe by simp
      ultimately have "snd p = snd q" using dw by (rule zip_tl_snd_unique[rotated])
      then show False using eq Pq fe by simp
    qed
    have "state_items g1 (start (fst p)) = state_items g (start (fst p))"
      using o1 nx le pw by blast
    then show "state_items g' (start (fst p)) = state_items g (start (fst p))"
      using o' nl by simp
  qed
  have L: "\<exists>its. state_items g (start ?lw) = Some its
           \<and> state_items g' (start ?lw) =
               Some (its @ (if homophoneArcExists g (start ?lw) special_Epsilon = Inr True
                  then []
                  else [Arc (start ?lw) (final ?lw) special_Epsilon special_Skip (Skip wt)]))"
    using sL iL gL by simp
  have O: "\<forall>s. s \<notin> start ` set ?ws \<longrightarrow> s \<le> ?c \<longrightarrow> state_items g' s = state_items g s"
  proof (intro allI impI)
    fix s assume s: "s \<notin> start ` set ?ws" and sc: "s \<le> ?c"
    have "s \<noteq> start ?lw" using s lwin by blast
    moreover have "s \<notin> ?st ` set ?xs" using s fstw xsub by auto
    ultimately show "state_items g' s = state_items g s" using o' o1 sc by simp
  qed
  have E': "\<forall>(word, next_word) \<in> set ?ps.
           label word = label next_word \<longrightarrow>
           state_items g' (start word) = state_items g (start word)"
    using E by (simp add: case_prod_beta)
  show ?thesis
    apply (rule exI[of _ g'])
    apply (intro conjI)
    using R F J E' L O by simp_all
qed

text \<open>
  The prompt A A B with no homophone file, after the correct and rubbish paths: the
  one pair with different labels is (A from 1 to 2, B from 2 to 3); state 0 keeps
  its list, state 1 gets the arc to the new state 4 consuming B, state 4 holds the
  epsilon arc to state 3, and state 2 gets the arc that skips the last word.
\<close>

theorem addSkipPaths_effect_witness:
  "built ([] @ [''A'', ''A'', ''B'']) graph_aab_rubbish
   \<and> [] @ [''A'', ''A'', ''B''] \<noteq> []
   \<and> addSkipPaths graph_aab_rubbish weights = Inr graph_aab_skip
   \<and> differing_pairs (words graph_aab_rubbish) =
       [(\<lparr>label = ''A'', start = 1, final = 2\<rparr>, \<lparr>label = ''B'', start = 2, final = 3\<rparr>)]
   \<and> state_counter graph_aab_skip = state_counter graph_aab_rubbish + 1
   \<and> state_items graph_aab_skip 0 = state_items graph_aab_rubbish 0
   \<and> state_items graph_aab_skip 1 =
       Some [Arc 1 2 ''A'' ''A'' 100, Arc 1 1 ''[RUB]'' ''[RUB]'' 5,
             Arc 1 4 ''B'' ''[SKP]'' 10]
   \<and> state_items graph_aab_skip 4 = Some [Arc 4 3 ''<eps>'' ''B'' 100]
   \<and> state_items graph_aab_skip 2 =
       Some [Arc 2 3 ''B'' ''B'' 100, Arc 2 2 ''[RUB]'' ''[RUB]'' 5,
             Arc 2 3 ''<eps>'' ''[SKP]'' 10]"
proof -
  have ne: "[] @ [''A'', ''A'', ''B''] \<noteq> []" by simp
  have d: "differing_pairs (words graph_aab_rubbish) =
       [(\<lparr>label = ''A'', start = 1, final = 2\<rparr>, \<lparr>label = ''B'', start = 2, final = 3\<rparr>)]"
    by (simp add: differing_pairs_def graph_aab_rubbish_def)
  have s: "state_counter graph_aab_skip = state_counter graph_aab_rubbish + 1
   \<and> state_items graph_aab_skip 0 = state_items graph_aab_rubbish 0
   \<and> state_items graph_aab_skip 1 =
       Some [Arc 1 2 ''A'' ''A'' 100, Arc 1 1 ''[RUB]'' ''[RUB]'' 5,
             Arc 1 4 ''B'' ''[SKP]'' 10]
   \<and> state_items graph_aab_skip 4 = Some [Arc 4 3 ''<eps>'' ''B'' 100]
   \<and> state_items graph_aab_skip 2 =
       Some [Arc 2 3 ''B'' ''B'' 100, Arc 2 2 ''[RUB]'' ''[RUB]'' 5,
             Arc 2 3 ''<eps>'' ''[SKP]'' 10]"
    by (simp add: state_items_def graph_aab_skip_def graph_aab_rubbish_def)
  show ?thesis
    using addSkipPaths_effect [OF built_graph_aab_rubbish ne, of weights]
      built_graph_aab_rubbish ne addSkipPaths_graph_aab d s
    by simp
qed

section \<open>The repeat paths\<close>

text \<open>
  C7. The claim: for each adjacent pair of words with different labels the repeat
  recipe adds a self-loop at word.final labelled word.label. With read and red on
  one line of the homophone file and the prompt read red, state 1 (the final state
  of read) already has the correct arc labelled red, so the guard drops the loop
  labelled read: the list of state 1 is the same before and after the recipe.
\<close>

theorem addRepeatPaths_read_red_loop_suppressed:
  "addWordSequence [''read'', ''red'']
     (PromptLMFST_init (readHomophones (Some [[''read'', ''red'']])) None) = Inr graph_rr_chain
   \<and> addCorrectPaths graph_rr_chain weights = Inr graph_rr_correct
   \<and> addRubbishPaths graph_rr_correct weights = Inr graph_rr_rubbish
   \<and> addSkipPaths graph_rr_rubbish weights = Inr graph_rr_skip
   \<and> addRepeatPaths graph_rr_skip weights = Inr graph_rr_repeat
   \<and> state_items graph_rr_skip 1 =
       Some [Arc 1 2 ''red'' ''red'' 100, Arc 1 1 ''[RUB]'' ''[RUB]'' 5,
             Arc 1 2 ''<eps>'' ''[SKP]'' 10]
   \<and> state_items graph_rr_repeat 1 =
       Some [Arc 1 2 ''red'' ''red'' 100, Arc 1 1 ''[RUB]'' ''[RUB]'' 5,
             Arc 1 2 ''<eps>'' ''[SKP]'' 10]"
proof -
  have a1: "addWordSequence [''read'', ''red'']
     (PromptLMFST_init (readHomophones (Some [[''read'', ''red'']])) None) = Inr graph_rr_chain"
    by (simp add: construction_defs graph_rr_chain_def)
  have a2: "addCorrectPaths graph_rr_chain weights = Inr graph_rr_correct"
    by (simp add: construction_defs graph_rr_chain_def graph_rr_correct_def)
  have a3: "addRubbishPaths graph_rr_correct weights = Inr graph_rr_rubbish"
    by (simp add: construction_defs graph_rr_correct_def graph_rr_rubbish_def)
  have a4: "addSkipPaths graph_rr_rubbish weights = Inr graph_rr_skip"
    by (simp add: construction_defs graph_rr_rubbish_def graph_rr_skip_def)
  have a5: "addRepeatPaths graph_rr_skip weights = Inr graph_rr_repeat"
    by (simp add: construction_defs graph_rr_skip_def graph_rr_repeat_def)
  have a6: "state_items graph_rr_skip 1 =
       Some [Arc 1 2 ''red'' ''red'' 100, Arc 1 1 ''[RUB]'' ''[RUB]'' 5,
             Arc 1 2 ''<eps>'' ''[SKP]'' 10]"
    by (simp add: state_items_def graph_rr_skip_def)
  have a7: "state_items graph_rr_repeat 1 =
       Some [Arc 1 2 ''red'' ''red'' 100, Arc 1 1 ''[RUB]'' ''[RUB]'' 5,
             Arc 1 2 ''<eps>'' ''[SKP]'' 10]"
    by (simp add: state_items_def graph_rr_repeat_def)
  show ?thesis using a1 a2 a3 a4 a5 a6 a7 by simp
qed

text \<open>
  C7 as amended. On every graph built by the operations with at least one word, the
  repeat recipe succeeds, allocates no state and changes nothing but lists of final
  states of words:
  \<^item> for an adjacent pair with different labels, word.final gets, at the end of its
    list, the self-loop with input and output word.label and the Repeat weight,
    unless the guard finds word.label among the homophones of a label already in
    that list; then, and for a pair with equal labels, the list stays as it is;
  \<^item> the final state of the last word gets its self-loop under the same guard,
    whatever the word before it is;
  \<^item> every state that is no word's final state keeps its list.
\<close>

theorem addRepeatPaths_effect:
  assumes "built ls g" and "ls \<noteq> []"
  shows "\<exists>g'. addRepeatPaths g wt = Inr g'
     \<and> same_frame g' g
     \<and> (\<forall>(word, next_word) \<in> set (zip (words g) (tl (words g))).
           \<exists>its. state_items g (final word) = Some its
             \<and> state_items g' (final word) =
                 Some (its @
                   (if label word = label next_word
                       \<or> homophoneArcExists g (final word) (label word) = Inr True
                    then []
                    else [Arc (final word) (final word) (label word) (label word) (Repeat wt)])))
     \<and> (\<exists>its. state_items g (final (last (words g))) = Some its
           \<and> state_items g' (final (last (words g))) =
               Some (its @
                 (if homophoneArcExists g (final (last (words g))) (label (last (words g)))
                       = Inr True
                  then []
                  else [Arc (final (last (words g))) (final (last (words g)))
                          (label (last (words g))) (label (last (words g))) (Repeat wt)])))
     \<and> (\<forall>s. s \<notin> final ` set (words g) \<longrightarrow> state_items g' s = state_items g s)"
proof -
  let ?ws = "words g"
  let ?ps = "zip ?ws (tl ?ws)"
  let ?P = "\<lambda>p. label (fst p) \<noteq> label (snd p)"
  let ?xs = "filter ?P ?ps"
  let ?fr = "\<lambda>p. final (fst p)"
  let ?il = "\<lambda>p. label (fst p)"
  let ?lw = "last ?ws"
  let ?loop = "\<lambda>w. Arc (final w) (final w) (label w) (label w) (Repeat wt)"
  have ok: "chain_ok g" using assms(1) by (rule built_chain_ok)
  have ne: "?ws \<noteq> []" using built_invariant[OF assms(1)] assms(2) by auto
  have df: "distinct (map final ?ws)" using ok by (simp add: chain_ok_def)
  have dw: "distinct ?ws" using df by (simp add: distinct_map)
  have inj: "inj_on final (set ?ws)" using df by (simp add: distinct_map)
  have ex: "\<forall>w \<in> set ?ws. \<exists>its. state_items g (final w) = Some its"
    using ok by (simp add: chain_ok_def state_items_Some_iff_key)
  have bl: "set (butlast ?ws) \<subseteq> set ?ws" by (auto dest: in_set_butlastD)
  have lwin: "?lw \<in> set ?ws" using ne by simp
  have lwnb: "?lw \<notin> set (butlast ?ws)" using dw ne by (rule last_notin_butlast)
  have fstb: "\<forall>p \<in> set ?ps. fst p \<in> set (butlast ?ws)"
    using zip_tl_fst_butlast by blast
  have fstw: "\<forall>p \<in> set ?ps. fst p \<in> set ?ws" using fstb bl by blast
  have "map ?fr ?ps = map final (map fst ?ps)" by (simp add: comp_def)
  then have mfr: "map ?fr ?ps = map final (butlast ?ws)"
    by (simp only: map_fst_zip_tl)
  have "distinct (map final (butlast ?ws))"
    using df by (simp add: map_butlast distinct_butlast)
  then have dps: "distinct (map ?fr ?ps)" using mfr by simp
  have dxs: "distinct (map ?fr ?xs)" using dps by (rule distinct_map_filter)
  have exs: "\<forall>x \<in> set ?xs. state_items g (?fr x) \<noteq> None"
  proof
    fix x assume "x \<in> set ?xs"
    then have "fst x \<in> set ?ws" using fstw by simp
    then obtain its where "state_items g (final (fst x)) = Some its" using ex by blast
    then show "state_items g (?fr x) \<noteq> None" by simp
  qed
  from for_each_addArc[OF dxs exs, of ?fr ?il ?il "\<lambda>p. Repeat wt"]
  obtain g1 where
    r1: "for_each (\<lambda>p g. addArc g (?fr p) (?fr p) (?il p) (?il p) (Repeat wt)) ?xs g = Inr g1"
    and i1: "\<forall>x \<in> set ?xs. \<forall>its. state_items g (?fr x) = Some its \<longrightarrow>
           state_items g1 (?fr x) =
             Some (its @ (if homophoneArcExists g (?fr x) (?il x) = Inr True then []
                          else [?loop (fst x)]))"
    and o1: "\<forall>s. s \<notin> ?fr ` set ?xs \<longrightarrow> state_items g1 s = state_items g s"
    and f1: "same_frame g1 g"
    by blast
  have loop_eq: "for_each (repeat_step wt) ?ps g = Inr g1"
    unfolding repeat_step_if for_each_filter using r1 .
  have w1: "words g1 = ?ws" using f1 by (simp add: same_frame_def)
  have h1: "homophones g1 = homophones g" using f1 by (simp add: same_frame_def)
  have lw1: "last_word g1 = Inr ?lw"
    using ne by (simp add: last_word_def w1 split: list.splits)
  have lnot: "final ?lw \<notin> ?fr ` set ?xs"
  proof
    assume "final ?lw \<in> ?fr ` set ?xs"
    then obtain p where p: "p \<in> set ?ps" and e: "final ?lw = final (fst p)" by auto
    have "fst p \<in> set ?ws" using fstw p by blast
    then have "?lw = fst p" using inj lwin e by (simp add: inj_on_def)
    then show False using fstb p lwnb by auto
  qed
  from ex lwin obtain itsL where sL: "state_items g (final ?lw) = Some itsL" by blast
  have sL1: "state_items g1 (final ?lw) = Some itsL" using o1 lnot sL by simp
  have gL: "homophoneArcExists g1 (final ?lw) (label ?lw)
      = homophoneArcExists g (final ?lw) (label ?lw)"
    by (rule homophoneArcExists_cong) (simp_all add: sL sL1 h1)
  from addArc_effect[OF sL1, of "final ?lw" "label ?lw" "label ?lw" "Repeat wt"]
  obtain g' where
    a': "addArc g1 (final ?lw) (final ?lw) (label ?lw) (label ?lw) (Repeat wt) = Inr g'"
    and iL: "state_items g' (final ?lw) =
         Some (itsL @ (if homophoneArcExists g1 (final ?lw) (label ?lw) = Inr True then []
                       else [?loop ?lw]))"
    and o': "\<forall>k. k \<noteq> final ?lw \<longrightarrow> state_items g' k = state_items g1 k"
    and f': "state_keys g' = state_keys g1 \<and> words g' = words g1
     \<and> state_counter g' = state_counter g1 \<and> initialised g' = initialised g1
     \<and> homophones g' = homophones g1 \<and> ID g' = ID g1"
    by blast
  have R: "addRepeatPaths g wt = Inr g'"
    by (simp add: addRepeatPaths_def loop_eq lw1 a')
  have F: "same_frame g' g" using f' f1 by (simp add: same_frame_def)
  have pairs: "\<forall>p \<in> set ?ps.
           \<exists>its. state_items g (final (fst p)) = Some its
             \<and> state_items g' (final (fst p)) =
                 Some (its @
                   (if label (fst p) = label (snd p)
                       \<or> homophoneArcExists g (final (fst p)) (label (fst p)) = Inr True
                    then [] else [?loop (fst p)]))"
  proof
    fix p assume p: "p \<in> set ?ps"
    have pw: "fst p \<in> set ?ws" using fstw p by blast
    from ex pw obtain its where its: "state_items g (final (fst p)) = Some its" by blast
    have nl: "final (fst p) \<noteq> final ?lw"
    proof
      assume "final (fst p) = final ?lw"
      then have "fst p = ?lw" using inj pw lwin by (simp add: inj_on_def)
      then show False using fstb p lwnb by auto
    qed
    have s': "state_items g' (final (fst p)) = state_items g1 (final (fst p))"
      using o' nl by simp
    show "\<exists>its. state_items g (final (fst p)) = Some its
             \<and> state_items g' (final (fst p)) =
                 Some (its @
                   (if label (fst p) = label (snd p)
                       \<or> homophoneArcExists g (final (fst p)) (label (fst p)) = Inr True
                    then [] else [?loop (fst p)]))"
    proof (cases "?P p")
      case True
      then have px: "p \<in> set ?xs" using p by simp
      have "state_items g1 (final (fst p)) =
          Some (its @ (if homophoneArcExists g (final (fst p)) (label (fst p)) = Inr True
                       then [] else [?loop (fst p)]))"
        using i1 px its by blast
      then show ?thesis using its s' True by simp
    next
      case False
      have "final (fst p) \<notin> ?fr ` set ?xs"
      proof
        assume "final (fst p) \<in> ?fr ` set ?xs"
        then obtain q where q: "q \<in> set ?ps" and Pq: "?P q"
          and e: "final (fst p) = final (fst q)" by auto
        have "fst q \<in> set ?ws" using fstw q by blast
        then have fe: "fst p = fst q" using inj pw e by (simp add: inj_on_def)
        have "(fst p, snd p) \<in> set ?ps" using p by simp
        moreover have "(fst p, snd q) \<in> set ?ps" using q fe by simp
        ultimately have "snd p = snd q" using dw by (rule zip_tl_snd_unique[rotated])
        then show False using False Pq fe by simp
      qed
      then have "state_items g1 (final (fst p)) = state_items g (final (fst p))"
        using o1 by simp
      then show ?thesis using its s' False by auto
    qed
  qed
  have L: "\<exists>its. state_items g (final ?lw) = Some its
           \<and> state_items g' (final ?lw) =
               Some (its @ (if homophoneArcExists g (final ?lw) (label ?lw) = Inr True
                  then [] else [?loop ?lw]))"
    using sL iL gL by simp
  have O: "\<forall>s. s \<notin> final ` set ?ws \<longrightarrow> state_items g' s = state_items g s"
  proof (intro allI impI)
    fix s assume s: "s \<notin> final ` set ?ws"
    have "s \<noteq> final ?lw" using s lwin by blast
    moreover have "s \<notin> ?fr ` set ?xs" using s fstw by auto
    ultimately show "state_items g' s = state_items g s" using o' o1 by simp
  qed
  show ?thesis
    apply (rule exI[of _ g'])
    using R F pairs L O by (simp add: case_prod_beta)
qed


text \<open>
  The prompt A A B with no homophone file, after the skip paths: state 1, between
  the two A, keeps its list; state 2, the final state of the second A, gets the loop
  labelled A; state 3, the final state of the last word, gets the loop labelled B.
\<close>

theorem addRepeatPaths_effect_witness:
  "built ([] @ [''A'', ''A'', ''B'']) graph_aab_skip
   \<and> [] @ [''A'', ''A'', ''B''] \<noteq> []
   \<and> addRepeatPaths graph_aab_skip weights = Inr graph_aab_repeat
   \<and> state_items graph_aab_repeat 1 = state_items graph_aab_skip 1
   \<and> state_items graph_aab_repeat 2 =
       Some [Arc 2 3 ''B'' ''B'' 100, Arc 2 2 ''[RUB]'' ''[RUB]'' 5,
             Arc 2 3 ''<eps>'' ''[SKP]'' 10, Arc 2 2 ''A'' ''A'' 30]
   \<and> state_items graph_aab_repeat 3 =
       Some [FinalState 3 0, Arc 3 3 ''[RUB]'' ''[RUB]'' 5, Arc 3 3 ''B'' ''B'' 30]"
proof -
  have ne: "[] @ [''A'', ''A'', ''B''] \<noteq> []" by simp
  have b: "built ([] @ [''A'', ''A'', ''B'']) graph_aab_skip"
    using built_graph_aab_rubbish addSkipPaths_graph_aab by (rule built_addSkipPaths)
  have s: "state_items graph_aab_repeat 1 = state_items graph_aab_skip 1
   \<and> state_items graph_aab_repeat 2 =
       Some [Arc 2 3 ''B'' ''B'' 100, Arc 2 2 ''[RUB]'' ''[RUB]'' 5,
             Arc 2 3 ''<eps>'' ''[SKP]'' 10, Arc 2 2 ''A'' ''A'' 30]
   \<and> state_items graph_aab_repeat 3 =
       Some [FinalState 3 0, Arc 3 3 ''[RUB]'' ''[RUB]'' 5, Arc 3 3 ''B'' ''B'' 30]"
    by (simp add: state_items_def graph_aab_skip_def graph_aab_repeat_def)
  show ?thesis
    using addRepeatPaths_effect [OF b ne, of weights] b ne addRepeatPaths_graph_aab s
    by simp
qed

end
